theory Spec2Isabelle
  imports Complex_Main "HOL-Library.AList"
begin

section \<open>Go strings and the standard-library functions the code calls\<close>

text \<open>
  A Go string is a sequence of bytes: \<open>len(s)\<close> is the number of bytes and \<open>s[i]\<close> is the
  byte at index \<open>i\<close>.  It is modelled as a \<open>string\<close> (a list of 8-bit characters).  Go's
  \<open>int\<close> holds lengths, distances and counters here; they are non-negative and bounded by the
  lengths of the strings, so they are modelled as \<open>nat\<close>, and a difference of two lengths is
  computed in \<open>int\<close>.

  \<open>strings.ToLower\<close>, \<open>strings.TrimSpace\<close>, \<open>strings.Fields\<close> and \<open>strings.Contains\<close>
  belong to the Go standard library.  They are modelled on the ASCII range: a byte from
  \<open>0x80\<close> on is neither a letter with a lower-case form nor white space.
\<close>

definition toLowerByte :: "char \<Rightarrow> char" where
  "toLowerByte c =
     (let n = (of_char c :: nat) in if 65 \<le> n \<and> n \<le> 90 then char_of (n + 32) else c)"

definition ToLower :: "string \<Rightarrow> string" where
  "ToLower s = map toLowerByte s"

definition isSpace :: "char \<Rightarrow> bool" where
  "isSpace c = (let n = (of_char c :: nat) in (9 \<le> n \<and> n \<le> 13) \<or> n = 32)"

definition TrimSpace :: "string \<Rightarrow> string" where
  "TrimSpace s = rev (dropWhile isSpace (rev (dropWhile isSpace s)))"

fun FieldsFrom :: "string \<Rightarrow> string \<Rightarrow> string list" where
  "FieldsFrom cur [] = (if cur = [] then [] else [cur])"
| "FieldsFrom cur (c # cs) =
     (if isSpace c then (if cur = [] then FieldsFrom [] cs else cur # FieldsFrom [] cs)
      else FieldsFrom (cur @ [c]) cs)"

definition Fields :: "string \<Rightarrow> string list" where
  "Fields s = FieldsFrom [] s"

definition HasPrefix :: "string \<Rightarrow> string \<Rightarrow> bool" where
  "HasPrefix s p = (take (length p) s = p)"

fun Contains :: "string \<Rightarrow> string \<Rightarrow> bool" where
  "Contains [] sub = (sub = [])"
| "Contains (c # s) sub = (HasPrefix (c # s) sub \<or> Contains s sub)"

text \<open>
  \<open>for _, ch := range s\<close> decodes the bytes of \<open>s\<close> as UTF-8 and yields code points; an
  invalid sequence yields \<open>U+FFFD\<close> and advances by one byte.
\<close>

definition isCont :: "nat \<Rightarrow> bool" where
  "isCont b = (128 \<le> b \<and> b \<le> 191)"

fun decodeMulti :: "nat \<Rightarrow> nat list \<Rightarrow> (nat \<times> nat) option" where
  "decodeMulti b0 rest =
     (if 194 \<le> b0 \<and> b0 \<le> 223 then
        (case rest of
           b1 # _ \<Rightarrow> if isCont b1 then Some ((b0 - 192) * 64 + (b1 - 128), 1) else None
         | _ \<Rightarrow> None)
      else if 224 \<le> b0 \<and> b0 \<le> 239 then
        (case rest of
           b1 # b2 # _ \<Rightarrow>
             if (if b0 = 224 then 160 \<le> b1 \<and> b1 \<le> 191
                 else if b0 = 237 then 128 \<le> b1 \<and> b1 \<le> 159 else isCont b1) \<and> isCont b2
             then Some ((b0 - 224) * 4096 + (b1 - 128) * 64 + (b2 - 128), 2) else None
         | _ \<Rightarrow> None)
      else if 240 \<le> b0 \<and> b0 \<le> 244 then
        (case rest of
           b1 # b2 # b3 # _ \<Rightarrow>
             if (if b0 = 240 then 144 \<le> b1 \<and> b1 \<le> 191
                 else if b0 = 244 then 128 \<le> b1 \<and> b1 \<le> 143 else isCont b1)
                \<and> isCont b2 \<and> isCont b3
             then Some ((b0 - 240) * 262144 + (b1 - 128) * 4096 + (b2 - 128) * 64 + (b3 - 128), 3)
             else None
         | _ \<Rightarrow> None)
      else None)"

fun decodeBytes :: "nat list \<Rightarrow> nat list" where
  "decodeBytes [] = []"
| "decodeBytes (b0 # rest) =
     (if b0 < 128 then b0 # decodeBytes rest
      else (case decodeMulti b0 rest of
              Some (r, k) \<Rightarrow> r # decodeBytes (drop k rest)
            | None \<Rightarrow> 65533 # decodeBytes rest))"

definition runes :: "string \<Rightarrow> nat list" where
  "runes s = decodeBytes (map of_char s)"

section \<open>The edit-distance primitive\<close>

text \<open>\<open>min(a, b, c)\<close> of the source (its name clashes with HOL's \<open>min\<close>).\<close>

definition min3 :: "nat \<Rightarrow> nat \<Rightarrow> nat \<Rightarrow> nat" where
  "min3 a b c = (if a < b then (if a < c then a else c) else (if b < c then b else c))"

text \<open>
  The cost table is a list of rows.  \<open>initMatrix\<close> allocates \<open>len(s1)+1\<close> rows of
  \<open>len(s2)+1\<close> zeros, sets column 0 of row \<open>i\<close> to \<open>i\<close> and then row 0 to \<open>0, 1, ...\<close>.
  The two nested \<open>for\<close> loops run their counters from 1 to the lengths; the body never changes
  a counter, so each loop is a fold over the counter's values.  Every index is in range.
\<close>

definition initMatrix :: "nat \<Rightarrow> nat \<Rightarrow> nat list list" where
  "initMatrix m n =
     (let matrix = map (\<lambda>i. (replicate (n + 1) 0)[0 := i]) [0..<m + 1]
      in foldl (\<lambda>mat j. mat[0 := (mat ! 0)[j := j]]) matrix [0..<n + 1])"

definition fillCell :: "'a list \<Rightarrow> 'a list \<Rightarrow> nat \<Rightarrow> nat list list \<Rightarrow> nat \<Rightarrow> nat list list" where
  "fillCell s1 s2 i matrix j =
     (let cost = (if s1 ! (i - 1) \<noteq> s2 ! (j - 1) then 1 else 0)
      in matrix[i := (matrix ! i)[j := min3 (matrix ! (i - 1) ! j + 1)
                                            (matrix ! i ! (j - 1) + 1)
                                            (matrix ! (i - 1) ! (j - 1) + cost)]])"

definition fillRow :: "'a list \<Rightarrow> 'a list \<Rightarrow> nat list list \<Rightarrow> nat \<Rightarrow> nat list list" where
  "fillRow s1 s2 matrix i = foldl (fillCell s1 s2 i) matrix [1..<length s2 + 1]"

definition fillMatrix :: "'a list \<Rightarrow> 'a list \<Rightarrow> nat list list" where
  "fillMatrix s1 s2 =
     foldl (fillRow s1 s2) (initMatrix (length s1) (length s2)) [1..<length s1 + 1]"

text \<open>
  The table algorithm on sequences of any unit; the source runs it on the bytes of its two
  arguments.
\<close>

definition tableDistance :: "'a list \<Rightarrow> 'a list \<Rightarrow> nat" where
  "tableDistance s1 s2 =
     (if length s1 = 0 then length s2
      else if length s2 = 0 then length s1
      else fillMatrix s1 s2 ! length s1 ! length s2)"

definition levenshteinDistance :: "string \<Rightarrow> string \<Rightarrow> nat" where
  "levenshteinDistance s1 s2 = tableDistance s1 s2"

subsection \<open>What the contract of the primitive speaks of\<close>

text \<open>
  One edit inserts, deletes or replaces a single unit anywhere in a sequence;
  \<open>(edit1 ^^ n) a b\<close> says that \<open>n\<close> edits in a row transform \<open>a\<close> into \<open>b\<close>.
\<close>

inductive edit1 :: "'a list \<Rightarrow> 'a list \<Rightarrow> bool" where
  ins: "edit1 (p @ s) (p @ c # s)"
| del: "edit1 (p @ c # s) (p @ s)"
| sub: "edit1 (p @ c # s) (p @ c' # s)"

text \<open>The textbook recursion, on the first units of the two sequences.\<close>

fun editDistance :: "'a list \<Rightarrow> 'a list \<Rightarrow> nat" where
  "editDistance [] ys = length ys"
| "editDistance (x # xs) [] = length (x # xs)"
| "editDistance (x # xs) (y # ys) =
     min3 (editDistance xs (y # ys) + 1)
          (editDistance (x # xs) ys + 1)
          (editDistance xs ys + (if x \<noteq> y then 1 else 0))"

text \<open>
  The invariant of the two loops of \<open>levenshteinDistance\<close>: when row \<open>i\<close> is being filled and
  column \<open>j\<close> is the next one, the table has its full shape and every cell of an earlier row,
  of row \<open>i\<close> before column \<open>j\<close>, and of column 0 holds the distance between the two prefixes.
\<close>

definition tableInv :: "'a list \<Rightarrow> 'a list \<Rightarrow> nat \<Rightarrow> nat \<Rightarrow> nat list list \<Rightarrow> bool" where
  "tableInv s1 s2 i j M \<longleftrightarrow>
     length M = length s1 + 1 \<and>
     (\<forall>r \<le> length s1. length (M ! r) = length s2 + 1) \<and>
     (\<forall>r \<le> length s1. \<forall>c \<le> length s2. r < i \<or> (r = i \<and> c < j) \<or> c = 0 \<longrightarrow>
         M ! r ! c = editDistance (take r s1) (take c s2))"

section \<open>The category grouper\<close>


record CategoryGrouper =
  rules :: "string \<rightharpoonup> string"

text \<open>The table \<open>categoryDefinitions\<close>, category by category, in the order of the source text.\<close>

definition categoryDefinitions :: "(string \<times> string list) list" where
  "categoryDefinitions =
    [
     (''doctor'',
       [''cardiologist'', ''neurologist'', ''ent'', ''orthopedic'', ''pediatrician'',
        ''dermatologist'', ''psychiatrist'', ''surgeon'', ''physician'', ''doctor'',
        ''dentist'', ''orthodontist'', ''oncologist'', ''radiologist'',
        ''dr'', ''doc'', ''md'', ''medical doctor'']),
     (''software engineer'',
       [''developer'', ''programmer'', ''software engineer'', ''coder'',
        ''frontend developer'', ''backend developer'', ''full stack developer'',
        ''web developer'', ''mobile developer'', ''devops engineer'',
        ''software engineering'', ''software development'', ''web development'',
        ''mobile development'', ''application development'', ''coding'', ''software'',
        ''dev'', ''swe'', ''se'']),
     (''lawyer'',
       [''lawyer'', ''attorney'', ''advocate'', ''solicitor'', ''barrister'',
        ''legal counsel'', ''legal advisor'',
        ''atty'', ''esq'', ''legal'']),
     (''teacher'',
       [''teacher'', ''professor'', ''instructor'', ''educator'', ''tutor'',
        ''lecturer'', ''trainer'',
        ''prof'']),
     (''manager'',
       [''manager'', ''director'', ''executive'', ''ceo'', ''cto'', ''cfo'',
        ''president'', ''vp'', ''vice president'', ''team lead'',
        ''mgr'', ''supervisor'', ''lead'']),
     (''designer'',
       [''designer'', ''graphic designer'', ''ui designer'', ''ux designer'',
        ''product designer'', ''artist'', ''illustrator'',
        ''branding'', ''brand'', ''visual design'', ''creative design'',
        ''ux'', ''ui'', ''graphic'']),
     (''sales professional'',
       [''sales'', ''salesperson'', ''sales rep'', ''sales representative'',
        ''account executive'', ''business development'', ''marketing'',
        ''marketing manager'', ''brand manager'',
        ''copywriting'', ''positioning'', ''strategy'', ''insight'',
        ''sales rep'', ''ae'', ''bdm'']),
     (''accountant'',
       [''accountant'', ''auditor'', ''financial analyst'', ''bookkeeper'',
        ''tax consultant'', ''chartered accountant'', ''cpa'',
        ''ca'', ''finance'']),
     (''engineer'',
       [''engineer'', ''mechanical engineer'', ''civil engineer'', ''electrical engineer'',
        ''chemical engineer'', ''aerospace engineer'', ''industrial engineer'',
        ''environmental engineer'', ''biomedical engineer'',
        ''eng'', ''engr'']),
     (''healthcare professional'',
       [''nurse'', ''pharmacist'', ''therapist'', ''physiotherapist'',
        ''paramedic'', ''medical assistant'', ''lab technician'',
        ''radiographer'', ''dietitian'', ''nutritionist'',
        ''rn'', ''lpn'', ''medical staff'']),
     (''construction worker'',
       [''construction worker'', ''contractor'', ''builder'', ''carpenter'',
        ''electrician'', ''plumber'', ''mason'', ''welder'',
        ''tradesman'']),
     (''hospitality professional'',
       [''chef'', ''cook'', ''waiter'', ''waitress'', ''bartender'',
        ''hotel manager'', ''receptionist'', ''concierge'',
        ''server'', ''hospitality'']),
     (''retail professional'',
       [''cashier'', ''store manager'', ''retail assistant'', ''sales associate'',
        ''merchandiser'', ''stock clerk'']),
     (''transportation worker'',
       [''driver'', ''truck driver'', ''delivery driver'', ''pilot'',
        ''captain'', ''logistics coordinator'', ''dispatcher'']),
     (''manufacturing worker'',
       [''factory worker'', ''production supervisor'', ''assembly line worker'',
        ''quality inspector'', ''machine operator'', ''foreman'']),
     (''public servant'',
       [''police officer'', ''firefighter'', ''government official'',
        ''civil servant'', ''social worker'', ''public administrator'']),
     (''media professional'',
       [''journalist'', ''reporter'', ''editor'', ''writer'', ''author'',
        ''photographer'', ''videographer'', ''content creator'']),
     (''researcher'',
       [''scientist'', ''researcher'', ''analyst'', ''data scientist'',
        ''biologist'', ''chemist'', ''physicist'', ''research assistant'',
        ''research'', ''analysis'', ''data analysis'', ''scientific research'']),
     (''hr professional'',
       [''hr'', ''human resources'', ''recruiter'', ''talent acquisition'',
        ''hr manager'', ''hr specialist'', ''hiring manager'',
        ''recruitment'', ''talent'']),
     (''security professional'',
       [''security'', ''cybersecurity'', ''information security'', ''network security'',
        ''security analyst'', ''security engineer'', ''homeland security'',
        ''airport security'', ''screening'', ''explosive detection'',
        ''cargo screening'', ''checkpoint screening'', ''baggage screening'']),
     (''technology specialist'',
       [''technology'', ''advanced technology'', ''innovation'', ''tech'',
        ''it specialist'', ''systems analyst'', ''network administrator'',
        ''database administrator'', ''cloud computing'', ''ai'', ''machine learning'',
        ''computed tomography'', ''ct scan'', ''imaging technology'']),
     (''internet professional'',
       [''internet'', ''internet marketing'', ''digital marketing'', ''digital'',
        ''seo'', ''sem'', ''search engine optimization'', ''search engine marketing'',
        ''online marketing'', ''web marketing'', ''ecommerce'', ''e-commerce'',
        ''social media marketing'', ''content marketing'', ''email marketing'',
        ''technicalseo'', ''technical seo'', ''digitaltransformation'', ''digital transformation'',
        ''marketingautomation'', ''marketing automation'', ''crm'']),
     (''drawings'',
       [''drawings'', ''sketch'', ''blueprint'', ''draft'', ''illustration'',
        ''diagram'']),
     (''design'',
       [''design''])
    ]"

definition addKeywords :: "string \<Rightarrow> (string \<rightharpoonup> string) \<Rightarrow> string list \<Rightarrow> (string \<rightharpoonup> string)" where
  "addKeywords category rs keywords = foldl (\<lambda>m keyword. m(ToLower keyword \<mapsto> category)) rs keywords"

text \<open>\<open>cats\<close> is the order in which the loop over \<open>categoryDefinitions\<close> meets the categories.\<close>

definition initializeRules :: "CategoryGrouper \<Rightarrow> string list \<Rightarrow> CategoryGrouper" where
  "initializeRules g cats =
     g\<lparr>rules := foldl (\<lambda>m category.
                  case map_of categoryDefinitions category of
                    None \<Rightarrow> m
                  | Some keywords \<Rightarrow> addKeywords category m keywords)
               (rules g) cats\<rparr>"

definition NewCategoryGrouper :: "string list \<Rightarrow> CategoryGrouper" where
  "NewCategoryGrouper cats = initializeRules \<lparr>rules = Map.empty\<rparr> cats"

text \<open>\<open>abs\<close> of the source (its name clashes with HOL's \<open>abs\<close>).\<close>

definition absInt :: "int \<Rightarrow> int" where
  "absInt x = (if x < 0 then - x else x)"

text \<open>
  Tier 2 of \<open>GetGroup\<close>: the loop returns the group of the first key it meets whose
  space-padded form occurs in the space-padded input.
\<close>

fun partialMatch :: "(string \<rightharpoonup> string) \<Rightarrow> string \<Rightarrow> string list \<Rightarrow> string option" where
  "partialMatch rs cleaned [] = None"
| "partialMatch rs cleaned (key # ks) =
     (case rs key of
        None \<Rightarrow> partialMatch rs cleaned ks
      | Some grp \<Rightarrow>
          if Contains ('' '' @ cleaned @ '' '') ('' '' @ key @ '' '') then Some grp
          else partialMatch rs cleaned ks)"

text \<open>
  Tier 3: one round of the loop, on the pair \<open>(bestMatch, bestDistance)\<close>;
  \<open>maxDistance\<close> is the constant 1.
\<close>

definition fuzzyStep :: "(string \<rightharpoonup> string) \<Rightarrow> string \<Rightarrow> string \<times> nat \<Rightarrow> string \<Rightarrow> string \<times> nat" where
  "fuzzyStep rs cleaned best key =
     (case rs key of
        None \<Rightarrow> best
      | Some grp \<Rightarrow>
          if absInt (int (length cleaned) - int (length key)) \<le> 1 \<and> length cleaned \<ge> 5 then
            (let distance = levenshteinDistance cleaned key
             in if distance < snd best \<and> distance \<le> 1 then (grp, distance) else best)
          else best)"

definition fuzzyTier :: "(string \<rightharpoonup> string) \<Rightarrow> string \<Rightarrow> string list \<Rightarrow> string" where
  "fuzzyTier rs cleaned ks = fst (foldl (fuzzyStep rs cleaned) ([], 999) ks)"

text \<open>
  \<open>GetGroup\<close>; \<open>ks2\<close> and \<open>ks3\<close> are the orders in which the loops of tier 2 and tier 3 meet
  the keys of the rule map.
\<close>

definition GetGroup :: "CategoryGrouper \<Rightarrow> string list \<Rightarrow> string list \<Rightarrow> string \<Rightarrow> string" where
  "GetGroup g ks2 ks3 category =
     (let cleaned = ToLower (TrimSpace category)
      in if cleaned = [] then []
         else (case rules g cleaned of
                 Some grp \<Rightarrow> grp
               | None \<Rightarrow>
                   (case partialMatch (rules g) cleaned ks2 of
                      Some grp \<Rightarrow> grp
                    | None \<Rightarrow>
                        (let bestMatch = fuzzyTier (rules g) cleaned ks3
                         in if bestMatch \<noteq> [] then bestMatch else []))))"

definition AddRule :: "CategoryGrouper \<Rightarrow> string \<Rightarrow> string \<Rightarrow> CategoryGrouper" where
  "AddRule g term grp = g\<lparr>rules := (rules g)(ToLower term \<mapsto> grp)\<rparr>"

subsection \<open>Notions used to state the properties of the grouper\<close>

definition cleanKey :: "string \<Rightarrow> bool" where
  "cleanKey k \<longleftrightarrow> ToLower k = k \<and> TrimSpace k = k"

definition allKeys :: "string list" where
  "allKeys = concat (map snd categoryDefinitions)"

definition owns :: "string \<Rightarrow> string \<Rightarrow> bool" where
  "owns c k \<longleftrightarrow> (\<exists>kws. map_of categoryDefinitions c = Some kws \<and> k \<in> ToLower ` set kws)"

definition tokenOccurs :: "string \<Rightarrow> string \<Rightarrow> bool" where
  "tokenOccurs key cleaned \<longleftrightarrow>
     (\<exists>pre post. cleaned = pre @ key @ post
        \<and> (pre = [] \<or> last pre = CHR '' '') \<and> (post = [] \<or> hd post = CHR '' ''))"

fun upToSpace :: "string \<Rightarrow> string list" where
  "upToSpace [] = []"
| "upToSpace (c # s) = (if c = CHR '' '' then [[]] else []) @ map ((#) c) (upToSpace s)"

fun spaceBounded :: "string \<Rightarrow> string list" where
  "spaceBounded [] = []"
| "spaceBounded (c # s) = (if c = CHR '' '' then upToSpace s else []) @ spaceBounded s"

fun within1 :: "'a list \<Rightarrow> 'a list \<Rightarrow> bool" where
  "within1 [] ys = (length ys \<le> 1)"
| "within1 (x # xs) [] = (xs = [])"
| "within1 (x # xs) (y # ys) =
     (if x = y then within1 xs ys else (xs = ys \<or> xs = y # ys \<or> x # xs = ys))"

definition fuzzyCandidate :: "string \<Rightarrow> string \<Rightarrow> bool" where
  "fuzzyCandidate cleaned key \<longleftrightarrow>
     absInt (int (length cleaned) - int (length key)) \<le> 1 \<and> length cleaned \<ge> 5
     \<and> levenshteinDistance cleaned key \<le> 1"

section \<open>The term normalizer\<close>

text \<open>
  A trie node owns its children; the map from code point to child is only ever looked up and
  updated at one key, so an association list stands for it.  The counter \<open>frequency\<close> only
  grows from 0.
\<close>

datatype TrieNode =
  TrieNode (children: "(nat \<times> TrieNode) list") (isEnd: bool) (canonicalTerm: string) (frequency: nat)

definition newTrieNode :: TrieNode where
  "newTrieNode = TrieNode [] False [] 0"

text \<open>
  The normalizer's state.  The field \<open>root\<close> of the source is \<open>rootNode\<close> here (\<open>root\<close> is a
  constant of HOL); the mutex has no counterpart, the model runs one call at a time.
\<close>

record TermNormalizer =
  rootNode :: TrieNode
  canonicalTerms :: "string \<rightharpoonup> string"
  termVariations :: "string \<rightharpoonup> string list"
  fuzzyMatchCache :: "string \<rightharpoonup> string"

definition NewTermNormalizer :: TermNormalizer where
  "NewTermNormalizer =
     \<lparr>rootNode = newTrieNode, canonicalTerms = Map.empty, termVariations = Map.empty,
      fuzzyMatchCache = Map.empty\<rparr>"

text \<open>\<open>insertIntoTrie\<close>: the walk from a node along the code points that are left.\<close>

fun insertNode :: "TrieNode \<Rightarrow> nat list \<Rightarrow> string \<Rightarrow> TrieNode" where
  "insertNode node [] canonical =
     TrieNode (children node) True canonical (frequency node + 1)"
| "insertNode node (ch # rest) canonical =
     (let child = (case map_of (children node) ch of None \<Rightarrow> newTrieNode | Some n \<Rightarrow> n)
      in TrieNode (AList.update ch (insertNode child rest canonical) (children node))
                  (isEnd node) (canonicalTerm node) (frequency node))"

definition insertIntoTrie :: "TermNormalizer \<Rightarrow> string \<Rightarrow> string \<Rightarrow> TermNormalizer" where
  "insertIntoTrie tn trm canonical =
     tn\<lparr>rootNode := insertNode (rootNode tn) (runes trm) canonical\<rparr>"

definition registerCanonicalTerm :: "TermNormalizer \<Rightarrow> string \<Rightarrow> TermNormalizer" where
  "registerCanonicalTerm tn trm =
     insertIntoTrie
       (tn\<lparr>canonicalTerms := (canonicalTerms tn)(trm \<mapsto> trm),
           termVariations := (termVariations tn)(trm \<mapsto> [trm])\<rparr>)
       trm trm"

fun prefixWalk :: "TrieNode \<Rightarrow> nat list \<Rightarrow> string \<Rightarrow> string" where
  "prefixWalk node [] lastValidMatch = lastValidMatch"
| "prefixWalk node (ch # rest) lastValidMatch =
     (case map_of (children node) ch of
        None \<Rightarrow> lastValidMatch
      | Some n \<Rightarrow> prefixWalk n rest (if isEnd n then canonicalTerm n else lastValidMatch))"

definition findLongestPrefixMatch :: "TermNormalizer \<Rightarrow> string \<Rightarrow> string" where
  "findLongestPrefixMatch tn trm = prefixWalk (rootNode tn) (runes trm) []"

fun frequencyWalk :: "TrieNode \<Rightarrow> nat list \<Rightarrow> nat" where
  "frequencyWalk node [] = (if isEnd node then frequency node else 0)"
| "frequencyWalk node (ch # rest) =
     (case map_of (children node) ch of None \<Rightarrow> 0 | Some n \<Rightarrow> frequencyWalk n rest)"

definition getFrequency :: "TermNormalizer \<Rightarrow> string \<Rightarrow> nat" where
  "getFrequency tn trm = frequencyWalk (rootNode tn) (runes trm)"

subsection \<open>The similarity score\<close>

text \<open>
  \<open>float64\<close> arithmetic is modelled by exact arithmetic on the reals.  \<open>absTwo\<close> and
  \<open>maxTwo\<close> are the helpers of the source.
\<close>

definition absTwo :: "int \<Rightarrow> int" where
  "absTwo x = (if x < 0 then - x else x)"

definition maxTwo :: "nat \<Rightarrow> nat \<Rightarrow> nat" where
  "maxTwo a b = (if a > b then a else b)"

definition longestCommonPrefix :: "string \<Rightarrow> string \<Rightarrow> string" where
  "longestCommonPrefix s1 s2 =
     (let minLen = (if length s2 < length s1 then length s2 else length s1)
      in case find (\<lambda>i. s1 ! i \<noteq> s2 ! i) [0..<minLen] of
           Some i \<Rightarrow> take i s1
         | None \<Rightarrow> take minLen s1)"

definition lcsCell :: "string \<Rightarrow> string \<Rightarrow> nat \<Rightarrow> nat list list \<Rightarrow> nat \<Rightarrow> nat list list" where
  "lcsCell s1 s2 i dp j =
     (if s1 ! (i - 1) = s2 ! (j - 1)
      then dp[i := (dp ! i)[j := dp ! (i - 1) ! (j - 1) + 1]]
      else dp[i := (dp ! i)[j := maxTwo (dp ! (i - 1) ! j) (dp ! i ! (j - 1))]])"

definition lcsRow :: "string \<Rightarrow> string \<Rightarrow> nat list list \<Rightarrow> nat \<Rightarrow> nat list list" where
  "lcsRow s1 s2 dp i = foldl (lcsCell s1 s2 i) dp [1..<length s2 + 1]"

definition longestCommonSubsequence :: "string \<Rightarrow> string \<Rightarrow> nat" where
  "longestCommonSubsequence s1 s2 =
     (let m = length s1; n = length s2
      in if m = 0 \<or> n = 0 then 0
         else foldl (lcsRow s1 s2) (replicate (m + 1) (replicate (n + 1) 0)) [1..<m + 1] ! m ! n)"

text \<open>
  \<open>set1\<close> is the set of the tokens of the first list; the loop counts the tokens of the
  second list, each as often as it occurs, that are in it.
\<close>

definition calculateTokenOverlap :: "string list \<Rightarrow> string list \<Rightarrow> real" where
  "calculateTokenOverlap tokens1 tokens2 =
     (if length tokens1 = 0 \<and> length tokens2 = 0 then 1
      else if length tokens1 = 0 \<or> length tokens2 = 0 then 0
      else (let set1 = set tokens1;
                overlap = length (filter (\<lambda>t. t \<in> set1) tokens2);
                maxSize = maxTwo (length tokens1) (length tokens2)
            in real overlap / real maxSize))"

definition calculateSimilarity :: "string \<Rightarrow> string \<Rightarrow> real" where
  "calculateSimilarity s1 s2 =
     (let lenDiff = absTwo (int (length s1) - int (length s2));
          maxLen = maxTwo (length s1) (length s2)
      in if maxLen = 0 then 0
         else (let lengthPenalty = (if real_of_int lenDiff / real maxLen > 0.2 then 0.8 else 1);
                   lcs = longestCommonSubsequence s1 s2;
                   lcsRatio = real lcs / real maxLen;
                   distance = levenshteinDistance s1 s2;
                   levRatio = 1 - real distance / real maxLen;
                   tokenOverlap = calculateTokenOverlap (Fields s1) (Fields s2);
                   prefix = longestCommonPrefix s1 s2;
                   prefixBonus = (if length prefix \<ge> 5 \<and> real (length prefix) / real maxLen > 0.6
                                  then 0.1 else 0);
                   similarity = lcsRatio * 0.25 + levRatio * 0.5 + tokenOverlap * 0.25 + prefixBonus
               in similarity * lengthPenalty))"

subsection \<open>Normalizing a term\<close>

definition isSimilarByPrefix :: "string \<Rightarrow> string \<Rightarrow> bool" where
  "isSimilarByPrefix trm canonical =
     (if length trm < 5 then trm = canonical
      else (let commonPrefix = longestCommonPrefix trm canonical;
                minLen = (if length canonical < length trm then length canonical else length trm);
                threshold = real minLen * 0.8
            in real (length commonPrefix) \<ge> threshold))"

text \<open>
  One round of the loop of \<open>findBestFuzzyMatch\<close>, on the pair \<open>(bestMatch, bestScore)\<close>;
  \<open>ks\<close> is the order in which the loop meets the keys of \<open>canonicalTerms\<close>.
\<close>

definition fuzzyMatchStep :: "(string \<rightharpoonup> string) \<Rightarrow> string \<Rightarrow> string \<times> real \<Rightarrow> string \<Rightarrow> string \<times> real" where
  "fuzzyMatchStep cts trm best key =
     (case cts key of
        None \<Rightarrow> best
      | Some canonical \<Rightarrow>
          if key \<noteq> canonical then best
          else (let score = calculateSimilarity trm canonical
                in if score > snd best \<and> score \<ge> 0.80 then (canonical, score) else best))"

definition findBestFuzzyMatch :: "TermNormalizer \<Rightarrow> string list \<Rightarrow> string \<Rightarrow> string" where
  "findBestFuzzyMatch tn ks trm = fst (foldl (fuzzyMatchStep (canonicalTerms tn) trm) ([], 0) ks)"

text \<open>
  \<open>NormalizeTerm\<close> returns the canonical form and the new state.  The test of the cache after
  the write lock is taken sees the state the first test saw.
\<close>

definition NormalizeTerm :: "TermNormalizer \<Rightarrow> string list \<Rightarrow> string \<Rightarrow> string \<times> TermNormalizer" where
  "NormalizeTerm tn ks trm =
     (let cleaned = ToLower (TrimSpace trm)
      in if cleaned = [] then (trm, tn)
         else (case fuzzyMatchCache tn cleaned of
            Some canonical \<Rightarrow> (canonical, insertIntoTrie tn cleaned canonical)
          | None \<Rightarrow>
           (case canonicalTerms tn cleaned of
              Some canonical \<Rightarrow> (canonical, insertIntoTrie tn cleaned canonical)
            | None \<Rightarrow>
             (case fuzzyMatchCache tn cleaned of
                Some canonical \<Rightarrow> (canonical, insertIntoTrie tn cleaned canonical)
              | None \<Rightarrow>
               (let prefixMatch = findLongestPrefixMatch tn cleaned
                in if prefixMatch \<noteq> [] \<and> isSimilarByPrefix cleaned prefixMatch then
                     (prefixMatch,
                      insertIntoTrie
                        (tn\<lparr>fuzzyMatchCache := (fuzzyMatchCache tn)(cleaned \<mapsto> prefixMatch),
                            canonicalTerms := (canonicalTerms tn)(cleaned \<mapsto> prefixMatch)\<rparr>)
                        cleaned prefixMatch)
                   else (let bestMatch = findBestFuzzyMatch tn ks cleaned
                         in if bestMatch \<noteq> [] then
                              (bestMatch,
                               (insertIntoTrie
                                  (tn\<lparr>fuzzyMatchCache := (fuzzyMatchCache tn)(cleaned \<mapsto> bestMatch),
                                      canonicalTerms := (canonicalTerms tn)(cleaned \<mapsto> bestMatch)\<rparr>)
                                  cleaned bestMatch)
                               \<lparr>termVariations := (termVariations tn)(bestMatch \<mapsto>
                                   (case termVariations tn bestMatch of None \<Rightarrow> [] | Some vs \<Rightarrow> vs)
                                   @ [cleaned])\<rparr>)
                            else (cleaned, registerCanonicalTerm tn cleaned)))))))"

subsection \<open>Listing and merging\<close>

text \<open>
  \<open>GetCanonicalTerms\<close>: \<open>ks\<close> is the order in which the loop meets the keys of
  \<open>canonicalTerms\<close>.  \<open>sort.Slice\<close> with the comparison \<open>freq(i) > freq(j)\<close> orders by falling
  frequency and promises nothing for equal frequencies; every result it can give is the
  stable sort of some order of the keys, and \<open>ks\<close> ranges over all of them.
\<close>

definition GetCanonicalTerms :: "TermNormalizer \<Rightarrow> string list \<Rightarrow> string list" where
  "GetCanonicalTerms tn ks =
     (let terms = map (\<lambda>trm. (trm, getFrequency tn trm)) ks
      in map fst (sort_key (\<lambda>tf. - int (snd tf)) terms))"





subsection \<open>The similarity score as the specification words it\<close>

text \<open>
  The length of a longest common subsequence, by the textbook recursion; the length of the
  longest common prefix; the overlap of the two sets of white-space tokens; and the score
  composed from them.  These follow the text of the specification and are compared with the
  functions of the source.
\<close>

fun lcsLength :: "'a list \<Rightarrow> 'a list \<Rightarrow> nat" where
  "lcsLength [] ys = 0"
| "lcsLength (x # xs) [] = 0"
| "lcsLength (x # xs) (y # ys) =
     (if x = y then lcsLength xs ys + 1 else max (lcsLength xs (y # ys)) (lcsLength (x # xs) ys))"

fun commonPrefixLength :: "'a list \<Rightarrow> 'a list \<Rightarrow> nat" where
  "commonPrefixLength (x # xs) (y # ys) = (if x = y then commonPrefixLength xs ys + 1 else 0)"
| "commonPrefixLength xs ys = 0"

definition specTokenOverlap :: "string \<Rightarrow> string \<Rightarrow> real" where
  "specTokenOverlap a b =
     (let ta = set (Fields a); tb = set (Fields b)
      in if ta = {} \<and> tb = {} then 1
         else if ta = {} \<or> tb = {} then 0
         else real (card (ta \<inter> tb)) / real (max (card ta) (card tb)))"

definition specSimilarity :: "string \<Rightarrow> string \<Rightarrow> real" where
  "specSimilarity a b =
     (let maxLen = real (max (length a) (length b));
          lcsRatio = real (lcsLength a b) / maxLen;
          levRatio = 1 - real (editDistance a b) / maxLen;
          tokenOverlap = specTokenOverlap a b;
          prefixBonus = (if commonPrefixLength a b \<ge> 5 \<and> real (commonPrefixLength a b) > 0.6 * maxLen
                         then 0.1 else 0);
          lengthPenalty = (if \<bar>real (length a) - real (length b)\<bar> / maxLen > 0.2 then 0.8 else 1)
      in (0.25 * lcsRatio + 0.5 * levRatio + 0.25 * tokenOverlap + prefixBonus) * lengthPenalty)"

subsection \<open>Two runs of the normalizer\<close>

text \<open>
  From the empty normalizer, "it dev" and then "it devs" are normalized (\<open>stateT2\<close>): the
  second term resolves to the first by the prefix heuristic.  In the other run "it devs" and
  then "it devz" are normalized (\<open>stateU2\<close>): the second resolves to the first by the fuzzy
  match.  Each loop order given is the only one the map has at that moment.
\<close>

definition stateT1 :: TermNormalizer where
  "stateT1 = snd (NormalizeTerm NewTermNormalizer [] ''it dev'')"

definition stateT2 :: TermNormalizer where
  "stateT2 = snd (NormalizeTerm stateT1 [''it dev''] ''it devs'')"



subsection \<open>Notions used to state the properties of the normalizer\<close>










section \<open>Properties of the edit distance\<close>

lemma min3_eq: "min3 a b c = min a (min b c)"
  by (simp add: min3_def min_def)

lemma editDistance_Nil2: "editDistance xs [] = length xs"
  by (cases xs) simp_all

lemma editDistance_refl: "editDistance xs xs = 0"
  by (induction xs) (simp_all add: min3_eq)


lemma ed_ins_head: "editDistance xs (c # ys) \<le> Suc (editDistance xs ys)"
  by (cases xs) (simp_all add: min3_eq)

lemma ed_drop_left: "editDistance (x # xs) ys \<le> Suc (editDistance xs ys)"
  by (cases ys) (simp_all add: min3_eq editDistance_Nil2)

lemma ed_del_head: "editDistance xs ys \<le> Suc (editDistance xs (c # ys))"
proof (induction xs)
  case Nil
  show ?case by simp
next
  case (Cons x xs)
  have "editDistance (x # xs) ys \<le> Suc (editDistance xs ys)" by (rule ed_drop_left)
  with Cons.IH show ?case by (simp add: min3_eq)
qed

lemma ed_sub_head: "editDistance xs (c' # ys) \<le> Suc (editDistance xs (c # ys))"
proof (induction xs)
  case Nil
  show ?case by simp
next
  case (Cons x xs)
  then show ?case by (auto simp: min3_eq min_def)
qed

lemma ed_lift_Cons:
  assumes "\<And>xs. editDistance xs U \<le> Suc (editDistance xs V)"
  shows "editDistance xs (y # U) \<le> Suc (editDistance xs (y # V))"
proof (induction xs)
  case Nil
  from assms[of "[]"] show ?case by simp
next
  case (Cons x xs)
  from Cons.IH assms[of xs] assms[of "x # xs"] show ?case
    by (auto simp: min3_eq min_def)
qed

lemma ed_ins_any: "editDistance xs (p @ c # s) \<le> Suc (editDistance xs (p @ s))"
proof (induction p arbitrary: xs)
  case Nil
  show ?case by (simp add: ed_ins_head)
next
  case (Cons y p)
  show ?case using ed_lift_Cons[of "p @ c # s" "p @ s" xs y] Cons.IH by simp
qed

lemma ed_del_any: "editDistance xs (p @ s) \<le> Suc (editDistance xs (p @ c # s))"
proof (induction p arbitrary: xs)
  case Nil
  show ?case by (simp add: ed_del_head)
next
  case (Cons y p)
  show ?case using ed_lift_Cons[of "p @ s" "p @ c # s" xs y] Cons.IH by simp
qed

lemma ed_sub_any: "editDistance xs (p @ c' # s) \<le> Suc (editDistance xs (p @ c # s))"
proof (induction p arbitrary: xs)
  case Nil
  show ?case by (simp add: ed_sub_head)
next
  case (Cons y p)
  show ?case using ed_lift_Cons[of "p @ c' # s" "p @ c # s" xs y] Cons.IH by simp
qed

lemma ed_edit1_step: "edit1 ys zs \<Longrightarrow> editDistance xs zs \<le> Suc (editDistance xs ys)"
  by (induction rule: edit1.induct) (simp_all add: ed_ins_any ed_del_any ed_sub_any)

lemma ed_lower_bound: "(edit1 ^^ n) a b \<Longrightarrow> editDistance a b \<le> n"
proof (induction n arbitrary: b)
  case 0
  then show ?case by (simp add: editDistance_refl)
next
  case (Suc n)
  from Suc.prems obtain y where y: "(edit1 ^^ n) a y" "edit1 y b" by auto
  from Suc.IH[OF y(1)] ed_edit1_step[OF y(2), of a] show ?case by simp
qed

lemma edit1_Cons: "edit1 a b \<Longrightarrow> edit1 (x # a) (x # b)"
proof (induction rule: edit1.induct)
  case (ins p s c)
  show ?case using edit1.ins[of "x # p" s c] by simp
next
  case (del p c s)
  show ?case using edit1.del[of "x # p" c s] by simp
next
  case (sub p c s c')
  show ?case using edit1.sub[of "x # p" c s c'] by simp
qed

lemma edits_Cons: "(edit1 ^^ n) a b \<Longrightarrow> (edit1 ^^ n) (x # a) (x # b)"
proof (induction n arbitrary: b)
  case 0
  then show ?case by simp
next
  case (Suc n)
  from Suc.prems obtain y where y: "(edit1 ^^ n) a y" "edit1 y b" by auto
  from Suc.IH[OF y(1)] edit1_Cons[OF y(2)] show ?case by auto
qed

lemma edit1_ins_head: "edit1 s (c # s)"
  using edit1.ins[of "[]" s c] by simp

lemma edit1_del_head: "edit1 (c # s) s"
  using edit1.del[of "[]" c s] by simp

lemma edit1_sub_head: "edit1 (c # s) (c' # s)"
  using edit1.sub[of "[]" c s c'] by simp

lemma ed_upper_bound: "(edit1 ^^ editDistance a b) a b"
proof (induction a b rule: editDistance.induct)
  case (1 ys)
  show ?case
  proof (induction ys)
    case Nil
    show ?case by simp
  next
    case (Cons y ys)
    have "(edit1 ^^ length ys) [y] (y # ys)" using edits_Cons[OF Cons.IH] by simp
    with edit1_ins_head[of "[]" y] have "(edit1 ^^ Suc (length ys)) [] (y # ys)"
      by (meson relpowp_Suc_I2)
    then show ?case by simp
  qed
next
  case (2 x xs)
  show ?case
  proof (induction xs arbitrary: x)
    case Nil
    show ?case using edit1_del_head[of x "[]"] by auto
  next
    case (Cons z zs)
    have "(edit1 ^^ Suc (length (z # zs))) (x # z # zs) []"
      using edit1_del_head[of x "z # zs"] Cons[of z] by (simp add: relpowp_Suc_I2 del: relpowp.simps)
    then show ?case by simp
  qed
next
  case (3 x xs y ys)
  let ?A = "editDistance xs (y # ys) + 1"
  let ?B = "editDistance (x # xs) ys + 1"
  let ?C = "editDistance xs ys + (if x \<noteq> y then 1 else 0)"
  have pA: "(edit1 ^^ ?A) (x # xs) (y # ys)"
    using edit1_del_head[of x xs] "3.IH"(1) by (simp add: relpowp_Suc_I2 del: relpowp.simps)
  have pB: "(edit1 ^^ ?B) (x # xs) (y # ys)"
    using edit1_ins_head[of ys y] "3.IH"(2) by (simp add: relpowp_Suc_I del: relpowp.simps)
  have pC: "(edit1 ^^ ?C) (x # xs) (y # ys)"
  proof (cases "x = y")
    case True
    then show ?thesis using edits_Cons[OF "3.IH"(3), of x] by simp
  next
    case False
    then show ?thesis
      using edits_Cons[OF "3.IH"(3), of x] edit1_sub_head[of x ys y]
      by (simp add: relpowp_Suc_I del: relpowp.simps)
  qed
  have "min3 ?A ?B ?C = ?A \<or> min3 ?A ?B ?C = ?B \<or> min3 ?A ?B ?C = ?C"
    by (simp add: min3_def)
  with pA pB pC show ?case by (auto simp del: relpowp.simps)
qed

lemma edit1_rev: "edit1 a b \<Longrightarrow> edit1 (rev a) (rev b)"
proof (induction rule: edit1.induct)
  case (ins p s c)
  show ?case using edit1.ins[of "rev s" "rev p" c] by simp
next
  case (del p c s)
  show ?case using edit1.del[of "rev s" c "rev p"] by simp
next
  case (sub p c s c')
  show ?case using edit1.sub[of "rev s" c "rev p" c'] by simp
qed

lemma edits_rev: "(edit1 ^^ n) a b \<Longrightarrow> (edit1 ^^ n) (rev a) (rev b)"
proof (induction n arbitrary: b)
  case 0
  then show ?case by simp
next
  case (Suc n)
  from Suc.prems obtain y where y: "(edit1 ^^ n) a y" "edit1 y b" by auto
  from Suc.IH[OF y(1)] edit1_rev[OF y(2)] show ?case by auto
qed

lemma editDistance_rev: "editDistance (rev a) (rev b) = editDistance a b"
proof (rule antisym)
  show "editDistance (rev a) (rev b) \<le> editDistance a b"
    by (rule ed_lower_bound[OF edits_rev[OF ed_upper_bound]])
  have "editDistance (rev (rev a)) (rev (rev b)) \<le> editDistance (rev a) (rev b)"
    by (rule ed_lower_bound[OF edits_rev[OF ed_upper_bound]])
  then show "editDistance a b \<le> editDistance (rev a) (rev b)" by simp
qed

subsection \<open>The table computes the recursion\<close>

lemma editDistance_snoc:
  "editDistance (xs @ [x]) (ys @ [y]) =
     min3 (editDistance xs (ys @ [y]) + 1) (editDistance (xs @ [x]) ys + 1)
          (editDistance xs ys + (if x \<noteq> y then 1 else 0))"
proof -
  have "editDistance (xs @ [x]) (ys @ [y]) = editDistance (x # rev xs) (y # rev ys)"
    using editDistance_rev[of "xs @ [x]" "ys @ [y]"] by simp
  also have "\<dots> = min3 (editDistance (rev xs) (rev (ys @ [y])) + 1)
                        (editDistance (rev (xs @ [x])) (rev ys) + 1)
                        (editDistance (rev xs) (rev ys) + (if x \<noteq> y then 1 else 0))"
    by simp
  finally show ?thesis by (simp only: editDistance_rev)
qed

lemma editDistance_take_Suc:
  assumes "i < length s1" "j < length s2"
  shows "editDistance (take (Suc i) s1) (take (Suc j) s2) =
     min3 (editDistance (take i s1) (take (Suc j) s2) + 1)
          (editDistance (take (Suc i) s1) (take j s2) + 1)
          (editDistance (take i s1) (take j s2) + (if s1 ! i \<noteq> s2 ! j then 1 else 0))"
  using assms by (simp only: take_Suc_conv_app_nth editDistance_snoc)

lemma initRow0:
  assumes "k \<le> length (M ! 0)" "M \<noteq> []"
  shows "foldl (\<lambda>mat j. mat[0 := (mat ! 0)[j := j]]) M [0..<k] =
           M[0 := [0..<k] @ drop k (M ! 0)]"
  using assms
proof (induction k)
  case 0
  then show ?case by (simp add: list_update_same_conv)
next
  case (Suc k)
  then have "foldl (\<lambda>mat j. mat[0 := (mat ! 0)[j := j]]) M [0..<Suc k]
      = M[0 := ([0..<k] @ drop k (M ! 0))[k := k]]"
    by simp
  also have "([0..<k] @ drop k (M ! 0))[k := k] = [0..<Suc k] @ drop (Suc k) (M ! 0)"
  proof -
    have "drop k (M ! 0) = M ! 0 ! k # drop (Suc k) (M ! 0)"
      using Suc.prems by (simp add: Cons_nth_drop_Suc)
    then show ?thesis by (simp add: list_update_append)
  qed
  finally show ?case .
qed

lemma initMatrix_nth:
  assumes "r \<le> m"
  shows "initMatrix m n ! r = (if r = 0 then [0..<n + 1] else (replicate (n + 1) 0)[0 := r])"
    and "length (initMatrix m n) = m + 1"
proof -
  define M where "M = map (\<lambda>i. (replicate (n + 1) 0)[0 := i]) [0..<m + 1]"
  have lenM: "length M = m + 1" by (simp add: M_def)
  have nthM: "M ! q = (replicate (n + 1) 0)[0 := q]" if "q \<le> m" for q
  proof -
    from that have "q < length [0..<m + 1]" by simp
    then have "M ! q = (replicate (n + 1) 0)[0 := [0..<m + 1] ! q]"
      unfolding M_def by (rule nth_map)
    moreover from that have "[0..<m + 1] ! q = q" by (simp del: upt_Suc add: nth_upt)
    ultimately show ?thesis by simp
  qed
  have len0: "length (M ! 0) = n + 1" by (simp add: nthM)
  have "initMatrix m n = M[0 := [0..<n + 1] @ drop (n + 1) (M ! 0)]"
    unfolding initMatrix_def Let_def M_def[symmetric]
  proof (rule initRow0)
    show "n + 1 \<le> length (M ! 0)" using len0 by simp
    show "M \<noteq> []" using lenM by auto
  qed
  with len0 have eq: "initMatrix m n = M[0 := [0..<n + 1]]" by simp
  show "length (initMatrix m n) = m + 1" by (simp add: eq lenM)
  show "initMatrix m n ! r = (if r = 0 then [0..<n + 1] else (replicate (n + 1) 0)[0 := r])"
    using assms lenM nthM[of r] by (simp add: eq nth_list_update del: upt_Suc replicate_Suc)
qed

lemma tableInv_init: "tableInv s1 s2 1 1 (initMatrix (length s1) (length s2))"
proof -
  let ?I = "initMatrix (length s1) (length s2)"
  have cells: "?I ! r ! c = editDistance (take r s1) (take c s2)"
    if rc: "r \<le> length s1" "c \<le> length s2" "r < 1 \<or> (r = 1 \<and> c < 1) \<or> c = 0" for r c
  proof (cases "r = 0")
    case True
    from rc(2) have "[0..<length s2 + 1] ! c = c" by (simp del: upt_Suc add: nth_upt)
    with True rc show ?thesis by (simp add: initMatrix_nth(1) del: upt_Suc)
  next
    case False
    with rc have c0: "c = 0" by auto
    from False rc(1) have "?I ! r = (replicate (length s2 + 1) 0)[0 := r]"
      by (simp add: initMatrix_nth(1))
    then have "?I ! r ! c = r" by (simp add: c0)
    with c0 rc show ?thesis by (simp add: editDistance_Nil2)
  qed
  have rows: "length (?I ! r) = length s2 + 1" if "r \<le> length s1" for r
    using that by (simp add: initMatrix_nth(1) del: upt_Suc replicate_Suc)
  have "length ?I = length s1 + 1"
    by (rule initMatrix_nth(2)[of 0]) simp
  with cells rows show ?thesis unfolding tableInv_def by blast
qed

lemma tableInv_fillCell:
  assumes inv: "tableInv s1 s2 i j M" and i: "1 \<le> i" "i \<le> length s1" and j: "1 \<le> j" "j \<le> length s2"
  shows "tableInv s1 s2 i (Suc j) (fillCell s1 s2 i M j)"
proof -
  obtain i' j' where ij: "i = Suc i'" "j = Suc j'" using i j by (cases i; cases j) auto
  from inv have len: "length M = length s1 + 1"
    and rows: "\<And>r. r \<le> length s1 \<Longrightarrow> length (M ! r) = length s2 + 1"
    and cells: "\<And>r c. r \<le> length s1 \<Longrightarrow> c \<le> length s2 \<Longrightarrow> r < i \<or> (r = i \<and> c < j) \<or> c = 0 \<Longrightarrow>
         M ! r ! c = editDistance (take r s1) (take c s2)"
    unfolding tableInv_def by blast+
  let ?v = "min3 (M ! (i - 1) ! j + 1) (M ! i ! (j - 1) + 1)
                 (M ! (i - 1) ! (j - 1) + (if s1 ! (i - 1) \<noteq> s2 ! (j - 1) then 1 else 0))"
  have fc: "fillCell s1 s2 i M j = M[i := (M ! i)[j := ?v]]"
    by (simp add: fillCell_def Let_def)
  have v: "?v = editDistance (take i s1) (take j s2)"
    using cells[of i' j] cells[of i j'] cells[of i' j'] i j
      editDistance_take_Suc[of i' s1 j' s2]
    by (simp add: ij)
  show ?thesis
    unfolding tableInv_def fc
  proof (intro conjI allI impI)
    show "length (M[i := (M ! i)[j := ?v]]) = length s1 + 1" using len by simp
  next
    fix r assume "r \<le> length s1"
    then show "length (M[i := (M ! i)[j := ?v]] ! r) = length s2 + 1"
      using rows[of r] len by (cases "r = i") simp_all
  next
    fix r c assume rc: "r \<le> length s1" "c \<le> length s2" "r < i \<or> (r = i \<and> c < Suc j) \<or> c = 0"
    show "M[i := (M ! i)[j := ?v]] ! r ! c = editDistance (take r s1) (take c s2)"
    proof (cases "r = i \<and> c = j")
      case True
      then show ?thesis using len rows[of i] i j v by simp
    next
      case False
      then have "M[i := (M ! i)[j := ?v]] ! r ! c = M ! r ! c"
        using len rc by (cases "r = i") auto
      moreover have "r < i \<or> (r = i \<and> c < j) \<or> c = 0" using rc False by auto
      ultimately show ?thesis using cells[of r c] rc by simp
    qed
  qed
qed

lemma tableInv_fillRow_prefix:
  assumes inv: "tableInv s1 s2 i 1 M" and i: "1 \<le> i" "i \<le> length s1"
  shows "k \<le> length s2 \<Longrightarrow> tableInv s1 s2 i (Suc k) (foldl (fillCell s1 s2 i) M [1..<k + 1])"
proof (induction k)
  case 0
  then show ?case using inv by simp
next
  case (Suc k)
  then have h: "tableInv s1 s2 i (Suc k) (foldl (fillCell s1 s2 i) M [1..<k + 1])" by simp
  from tableInv_fillCell[where j = "Suc k", OF h i] Suc.prems show ?case by simp
qed

lemma tableInv_next_row:
  assumes "tableInv s1 s2 i (Suc (length s2)) M"
  shows "tableInv s1 s2 (Suc i) 1 M"
proof -
  from assms have cells: "\<And>r c. r \<le> length s1 \<Longrightarrow> c \<le> length s2 \<Longrightarrow>
      r < i \<or> (r = i \<and> c < Suc (length s2)) \<or> c = 0 \<Longrightarrow>
      M ! r ! c = editDistance (take r s1) (take c s2)"
    unfolding tableInv_def by blast
  have "\<And>r c. r \<le> length s1 \<Longrightarrow> c \<le> length s2 \<Longrightarrow>
      r < Suc i \<or> (r = Suc i \<and> c < 1) \<or> c = 0 \<Longrightarrow>
      M ! r ! c = editDistance (take r s1) (take c s2)"
  proof -
    fix r c assume rc: "r \<le> length s1" "c \<le> length s2" "r < Suc i \<or> (r = Suc i \<and> c < 1) \<or> c = 0"
    then have "r < i \<or> (r = i \<and> c < Suc (length s2)) \<or> c = 0" by auto
    with rc(1,2) show "M ! r ! c = editDistance (take r s1) (take c s2)" using cells[of r c] by blast
  qed
  with assms show ?thesis unfolding tableInv_def by blast
qed

lemma tableInv_fillRow:
  assumes "tableInv s1 s2 i 1 M" "1 \<le> i" "i \<le> length s1"
  shows "tableInv s1 s2 (Suc i) 1 (fillRow s1 s2 M i)"
  unfolding fillRow_def
  by (rule tableInv_next_row) (rule tableInv_fillRow_prefix[OF assms order_refl])

lemma tableInv_fillMatrix_prefix:
  "k \<le> length s1 \<Longrightarrow>
   tableInv s1 s2 (Suc k) 1 (foldl (fillRow s1 s2) (initMatrix (length s1) (length s2)) [1..<k + 1])"
proof (induction k)
  case 0
  show ?case using tableInv_init[of s1 s2] by simp
next
  case (Suc k)
  then have "tableInv s1 s2 (Suc k) 1
      (foldl (fillRow s1 s2) (initMatrix (length s1) (length s2)) [1..<k + 1])" by simp
  from tableInv_fillRow[OF this] Suc.prems show ?case by simp
qed

lemma tableDistance_editDistance: "tableDistance s1 s2 = editDistance s1 s2"
proof (cases "length s1 = 0 \<or> length s2 = 0")
  case True
  then show ?thesis by (auto simp: tableDistance_def editDistance_Nil2)
next
  case False
  have "tableInv s1 s2 (Suc (length s1)) 1 (fillMatrix s1 s2)"
    unfolding fillMatrix_def by (rule tableInv_fillMatrix_prefix) simp
  then have "fillMatrix s1 s2 ! length s1 ! length s2 = editDistance (take (length s1) s1) (take (length s2) s2)"
    unfolding tableInv_def by auto
  with False show ?thesis by (simp add: tableDistance_def)
qed

lemma levenshteinDistance_editDistance: "levenshteinDistance s1 s2 = editDistance s1 s2"
  by (simp add: levenshteinDistance_def tableDistance_editDistance)



section \<open>Properties of the string functions\<close>

lemma toLowerByte_Char:
  "toLowerByte (Char b0 b1 b2 b3 b4 b5 b6 b7) =
     (if \<not> b7 \<and> b6 \<and> \<not> b5 \<and> (b0 \<or> b1 \<or> b2 \<or> b3 \<or> b4) \<and> \<not> (b4 \<and> b3 \<and> (b2 \<or> (b1 \<and> b0)))
      then Char b0 b1 b2 b3 b4 True b6 b7 else Char b0 b1 b2 b3 b4 b5 b6 b7)"
  by (cases b0; cases b1; cases b2; cases b3; cases b4; cases b5; cases b6; cases b7)
     (simp_all add: toLowerByte_def char_of_def bit_0)

lemma isSpace_Char:
  "isSpace (Char b0 b1 b2 b3 b4 b5 b6 b7) =
     (\<not> b7 \<and> \<not> b6 \<and> ((b5 \<and> \<not> b4 \<and> \<not> b3 \<and> \<not> b2 \<and> \<not> b1 \<and> \<not> b0)
        \<or> (\<not> b5 \<and> \<not> b4 \<and> b3 \<and> (b0 \<or> b1 \<or> b2) \<and> \<not> (b2 \<and> b1))))"
  by (cases b0; cases b1; cases b2; cases b3; cases b4; cases b5; cases b6; cases b7)
     (simp_all add: isSpace_def)

lemma toLowerByte_idem: "toLowerByte (toLowerByte c) = toLowerByte c"
  by (cases c) (simp add: toLowerByte_Char)

lemma isSpace_toLowerByte: "isSpace (toLowerByte c) = isSpace c"
  by (cases c) (auto simp: toLowerByte_Char isSpace_Char)

lemma ToLower_idem: "ToLower (ToLower s) = ToLower s"
  by (simp add: ToLower_def toLowerByte_idem)

lemma ToLower_Nil_iff: "ToLower s = [] \<longleftrightarrow> s = []"
  by (simp add: ToLower_def)

lemma ToLower_TrimSpace: "ToLower (TrimSpace s) = TrimSpace (ToLower s)"
proof -
  have "isSpace \<circ> toLowerByte = isSpace" by (rule ext) (simp add: isSpace_toLowerByte)
  then show ?thesis
    by (simp add: ToLower_def TrimSpace_def dropWhile_map rev_map)
qed

lemma TrimSpace_fixed_iff:
  "TrimSpace s = s \<longleftrightarrow> s = [] \<or> (\<not> isSpace (hd s) \<and> \<not> isSpace (last s))"
proof (cases s)
  case Nil
  then show ?thesis by (simp add: TrimSpace_def)
next
  case (Cons c cs)
  show ?thesis
  proof (cases "isSpace c")
    case True
    have "length (TrimSpace s) \<le> length (dropWhile isSpace s)"
      unfolding TrimSpace_def by (simp add: length_dropWhile_le) (metis length_dropWhile_le length_rev)
    also have "\<dots> < length s" using Cons True by (simp add: length_dropWhile_le le_imp_less_Suc)
    finally have "TrimSpace s \<noteq> s" by auto
    with Cons True show ?thesis by simp
  next
    case False
    then have d: "dropWhile isSpace s = s" using Cons by simp
    show ?thesis
    proof (cases "isSpace (last s)")
      case True
      then have "isSpace (hd (rev s))" by (simp add: hd_rev)
      then have "length (dropWhile isSpace (rev s)) < length (rev s)"
        using Cons by (cases "rev s") (auto simp: length_dropWhile_le le_imp_less_Suc)
      then have "TrimSpace s \<noteq> s" unfolding TrimSpace_def d
        by (metis length_rev nat_neq_iff)
      with Cons False True show ?thesis by simp
    next
      case l: False
      then have "\<not> isSpace (hd (rev s))" by (simp add: hd_rev)
      then have "dropWhile isSpace (rev s) = rev s" using Cons by (cases "rev s") auto
      then show ?thesis using Cons False l by (simp add: TrimSpace_def d)
    qed
  qed
qed

lemma TrimSpace_trimmed:
  "TrimSpace s = [] \<or> (\<not> isSpace (hd (TrimSpace s)) \<and> \<not> isSpace (last (TrimSpace s)))"
proof (cases "TrimSpace s = []")
  case True
  then show ?thesis by simp
next
  case False
  let ?d = "dropWhile isSpace s"
  let ?r = "dropWhile isSpace (rev ?d)"
  have r: "?r \<noteq> []" using False by (simp add: TrimSpace_def)
  then have "\<not> isSpace (hd ?r)" by (rule hd_dropWhile)
  then have l: "\<not> isSpace (last (TrimSpace s))"
    using r by (simp add: TrimSpace_def last_rev)
  have "?d \<noteq> []"
  proof
    assume "?d = []"
    then have "?r = []" by (metis dropWhile.simps(1) rev.simps(1))
    with r show False by blast
  qed
  then have h: "\<not> isSpace (hd ?d)" by (rule hd_dropWhile)
  obtain pre where pre: "rev ?d = pre @ ?r"
    by (metis takeWhile_dropWhile_id)
  then have "?d = rev ?r @ rev pre" by (metis rev_append rev_rev_ident)
  then have "hd ?d = hd (rev ?r)" using r by (metis hd_append2 rev_is_Nil_conv)
  with h l show ?thesis by (simp add: TrimSpace_def)
qed

lemma TrimSpace_idem: "TrimSpace (TrimSpace s) = TrimSpace s"
  using TrimSpace_trimmed[of s] by (simp add: TrimSpace_fixed_iff)

lemma cleanKey_clean: "cleanKey (ToLower (TrimSpace s))"
  unfolding cleanKey_def
  by (metis ToLower_idem ToLower_TrimSpace TrimSpace_idem)


section \<open>Properties of the grouper\<close>

lemma addKeywords_apply:
  "addKeywords c m kws k = (if k \<in> ToLower ` set kws then Some c else m k)"
  unfolding addKeywords_def
  by (induction kws arbitrary: m) auto

lemma initStep_apply:
  "(case map_of categoryDefinitions c of None \<Rightarrow> m | Some kws \<Rightarrow> addKeywords c m kws) k
     = (if owns c k then Some c else m k)"
  by (auto simp: owns_def addKeywords_apply split: option.splits)

lemma initFold_apply:
  "(foldl (\<lambda>m c. case map_of categoryDefinitions c of None \<Rightarrow> m
                    | Some kws \<Rightarrow> addKeywords c m kws) m cats k = m k \<and> (\<forall>c\<in>set cats. \<not> owns c k))
   \<or> (\<exists>c\<in>set cats. owns c k \<and>
         foldl (\<lambda>m c. case map_of categoryDefinitions c of None \<Rightarrow> m
                    | Some kws \<Rightarrow> addKeywords c m kws) m cats k = Some c)"
proof (induction cats arbitrary: m)
  case Nil
  show ?case by simp
next
  case (Cons c cats)
  let ?m' = "case map_of categoryDefinitions c of None \<Rightarrow> m | Some kws \<Rightarrow> addKeywords c m kws"
  from Cons.IH[of ?m'] initStep_apply[where c = c and m = m and k = k] show ?case
    by (auto split: if_splits)
qed

lemma rules_New_Some:
  assumes "rules (NewCategoryGrouper cats) k = Some c"
  shows "c \<in> set cats \<and> owns c k"
  using assms initFold_apply[of Map.empty cats k]
  by (auto simp: NewCategoryGrouper_def initializeRules_def)

lemma rules_New_owned:
  assumes "c \<in> set cats" "owns c k"
  shows "\<exists>c'\<in>set cats. owns c' k \<and> rules (NewCategoryGrouper cats) k = Some c'"
  using assms initFold_apply[of Map.empty cats k]
  by (auto simp: NewCategoryGrouper_def initializeRules_def)

lemma distinct_categories: "distinct (map fst categoryDefinitions)"
  by (simp add: categoryDefinitions_def)

lemma owns_iff: "owns c k \<longleftrightarrow> (\<exists>kws. (c, kws) \<in> set categoryDefinitions \<and> k \<in> ToLower ` set kws)"
  unfolding owns_def using distinct_categories by (auto dest: map_of_SomeD)

lemma dom_rules_New:
  assumes "set cats = fst ` set categoryDefinitions"
  shows "dom (rules (NewCategoryGrouper cats)) = ToLower ` set allKeys"
proof (intro set_eqI iffI)
  fix k assume "k \<in> dom (rules (NewCategoryGrouper cats))"
  then obtain c where "rules (NewCategoryGrouper cats) k = Some c" by auto
  from rules_New_Some[OF this] obtain kws where "(c, kws) \<in> set categoryDefinitions" "k \<in> ToLower ` set kws"
    by (auto simp: owns_iff)
  then show "k \<in> ToLower ` set allKeys"
    unfolding allKeys_def by force
next
  fix k assume "k \<in> ToLower ` set allKeys"
  then obtain c kws where ck: "(c, kws) \<in> set categoryDefinitions" "k \<in> ToLower ` set kws"
    by (auto simp: allKeys_def)
  then have "c \<in> set cats" "owns c k" using assms by (auto simp: owns_iff intro: rev_image_eqI)
  from rules_New_owned[OF this] show "k \<in> dom (rules (NewCategoryGrouper cats))" by auto
qed

lemma HasPrefix_iff: "HasPrefix s p \<longleftrightarrow> (\<exists>q. s = p @ q)"
  unfolding HasPrefix_def
  by (metis append_eq_conv_conj append_take_drop_id)

lemma Contains_iff: "Contains s sub \<longleftrightarrow> (\<exists>p q. s = p @ sub @ q)"
proof (induction s)
  case Nil
  show ?case by auto
next
  case (Cons c s)
  have "(\<exists>p q. c # s = p @ sub @ q) \<longleftrightarrow> (\<exists>q. c # s = sub @ q) \<or> (\<exists>p q. s = p @ sub @ q)"
  proof
    assume "\<exists>p q. c # s = p @ sub @ q"
    then obtain p q where pq: "c # s = p @ sub @ q" by blast
    show "(\<exists>q. c # s = sub @ q) \<or> (\<exists>p q. s = p @ sub @ q)"
    proof (cases p)
      case Nil
      with pq show ?thesis by auto
    next
      case (Cons a p')
      with pq show ?thesis by auto
    qed
  next
    assume "(\<exists>q. c # s = sub @ q) \<or> (\<exists>p q. s = p @ sub @ q)"
    then show "\<exists>p q. c # s = p @ sub @ q"
    proof
      assume "\<exists>q. c # s = sub @ q"
      then obtain q where "c # s = [] @ sub @ q" by auto
      then show ?thesis by blast
    next
      assume "\<exists>p q. s = p @ sub @ q"
      then obtain p q where "c # s = (c # p) @ sub @ q" by auto
      then show ?thesis by blast
    qed
  qed
  with Cons.IH show ?case by (simp add: HasPrefix_iff)
qed

lemma upToSpace_iff: "key \<in> set (upToSpace s) \<longleftrightarrow> (\<exists>q. s = key @ CHR '' '' # q)"
proof (induction s arbitrary: key)
  case Nil
  show ?case by simp
next
  case (Cons c s)
  show ?case
  proof (cases key)
    case Nil
    then show ?thesis by auto
  next
    case (Cons k key')
    then show ?thesis using Cons.IH[of key'] by auto
  qed
qed

lemma spaceBounded_iff:
  "key \<in> set (spaceBounded s) \<longleftrightarrow> (\<exists>p q. s = p @ CHR '' '' # key @ CHR '' '' # q)"
proof (induction s)
  case Nil
  show ?case by simp
next
  case (Cons c s)
  have "(\<exists>p q. c # s = p @ CHR '' '' # key @ CHR '' '' # q) \<longleftrightarrow>
        (c = CHR '' '' \<and> (\<exists>q. s = key @ CHR '' '' # q)) \<or> (\<exists>p q. s = p @ CHR '' '' # key @ CHR '' '' # q)"
  proof
    assume "\<exists>p q. c # s = p @ CHR '' '' # key @ CHR '' '' # q"
    then obtain p q where pq: "c # s = p @ CHR '' '' # key @ CHR '' '' # q" by blast
    show "(c = CHR '' '' \<and> (\<exists>q. s = key @ CHR '' '' # q)) \<or> (\<exists>p q. s = p @ CHR '' '' # key @ CHR '' '' # q)"
    proof (cases p)
      case Nil
      with pq show ?thesis by auto
    next
      case (Cons a p')
      with pq show ?thesis by auto
    qed
  next
    assume "(c = CHR '' '' \<and> (\<exists>q. s = key @ CHR '' '' # q)) \<or> (\<exists>p q. s = p @ CHR '' '' # key @ CHR '' '' # q)"
    then show "\<exists>p q. c # s = p @ CHR '' '' # key @ CHR '' '' # q"
    proof
      assume "c = CHR '' '' \<and> (\<exists>q. s = key @ CHR '' '' # q)"
      then obtain q where "c # s = [] @ CHR '' '' # key @ CHR '' '' # q" by auto
      then show ?thesis by blast
    next
      assume "\<exists>p q. s = p @ CHR '' '' # key @ CHR '' '' # q"
      then obtain p q where "c # s = (c # p) @ CHR '' '' # key @ CHR '' '' # q" by auto
      then show ?thesis by blast
    qed
  qed
  with Cons.IH show ?case by (auto simp: upToSpace_iff)
qed

lemma padded_tokenOccurs:
  "(\<exists>p q. CHR '' '' # cleaned @ [CHR '' ''] = p @ CHR '' '' # key @ CHR '' '' # q)
     \<longleftrightarrow> tokenOccurs key cleaned"
proof
  assume "\<exists>p q. CHR '' '' # cleaned @ [CHR '' ''] = p @ CHR '' '' # key @ CHR '' '' # q"
  then obtain p q where pq: "CHR '' '' # cleaned @ [CHR '' ''] = p @ CHR '' '' # key @ CHR '' '' # q"
    by blast
  obtain post where post: "cleaned @ [CHR '' ''] = tl (p @ [CHR '' '']) @ key @ post @ [CHR '' '']"
      "post = [] \<or> hd post = CHR '' ''"
  proof (cases q rule: rev_cases)
    case Nil
    with pq have "cleaned @ [CHR '' ''] = tl (p @ [CHR '' '']) @ key @ [] @ [CHR '' '']"
      by (cases p) auto
    then show ?thesis using that by blast
  next
    case (snoc q' x)
    have "(CHR '' '' # cleaned) @ [CHR '' ''] = (p @ CHR '' '' # key @ CHR '' '' # q') @ [x]"
      using pq[unfolded snoc] by (simp only: append_Cons append_assoc)
    then have "CHR '' '' # cleaned = p @ CHR '' '' # key @ CHR '' '' # q' \<and> CHR '' '' = x"
      by (rule append1_eq_conv[THEN iffD1])
    then have x: "x = CHR '' ''" and "CHR '' '' # cleaned = p @ CHR '' '' # key @ CHR '' '' # q'"
      by blast+
    then have "cleaned @ [CHR '' ''] = tl (p @ [CHR '' '']) @ key @ (CHR '' '' # q') @ [CHR '' '']"
      by (cases p) auto
    then show ?thesis using that[of "CHR '' '' # q'"] by simp
  qed
  let ?pre = "tl (p @ [CHR '' ''])"
  from post(1) have "cleaned = ?pre @ key @ post" by (metis append.assoc append_same_eq)
  moreover have "?pre = [] \<or> last ?pre = CHR '' ''"
  proof (cases p)
    case Nil
    then show ?thesis by simp
  next
    case (Cons a p')
    then show ?thesis by simp
  qed
  ultimately show "tokenOccurs key cleaned" using post(2) unfolding tokenOccurs_def by blast
next
  assume "tokenOccurs key cleaned"
  then obtain pre post where c: "cleaned = pre @ key @ post"
    and pre: "pre = [] \<or> last pre = CHR '' ''" and post: "post = [] \<or> hd post = CHR '' ''"
    unfolding tokenOccurs_def by blast
  obtain p where p: "CHR '' '' # pre = p @ [CHR '' '']"
  proof (cases "pre = []")
    case True
    then have "CHR '' '' # pre = [] @ [CHR '' '']" by simp
    then show ?thesis using that by blast
  next
    case False
    with pre have "pre = butlast pre @ [CHR '' '']" by (metis append_butlast_last_id)
    then have "CHR '' '' # pre = (CHR '' '' # butlast pre) @ [CHR '' '']" by simp
    then show ?thesis using that by blast
  qed
  obtain q where q: "post @ [CHR '' ''] = CHR '' '' # q"
  proof (cases "post = []")
    case True
    then show ?thesis using that[of "[]"] by simp
  next
    case False
    with post have "post = CHR '' '' # tl post" by (metis list.collapse)
    then have "post @ [CHR '' ''] = CHR '' '' # (tl post @ [CHR '' ''])" by (metis append_Cons)
    then show ?thesis using that by blast
  qed
  have "CHR '' '' # cleaned @ [CHR '' ''] = (CHR '' '' # pre) @ key @ (post @ [CHR '' ''])"
    using c by simp
  also have "\<dots> = p @ CHR '' '' # key @ CHR '' '' # q" unfolding p q by simp
  finally show "\<exists>p q. CHR '' '' # cleaned @ [CHR '' ''] = p @ CHR '' '' # key @ CHR '' '' # q"
    by blast
qed

lemma Contains_padded:
  "Contains ('' '' @ cleaned @ '' '') ('' '' @ key @ '' '') \<longleftrightarrow> tokenOccurs key cleaned"
  using padded_tokenOccurs[of cleaned key] by (simp add: Contains_iff)

lemma tokenOccurs_spaceBounded:
  "tokenOccurs key cleaned \<longleftrightarrow> key \<in> set (spaceBounded (CHR '' '' # cleaned @ [CHR '' '']))"
  using padded_tokenOccurs[of cleaned key] by (simp only: spaceBounded_iff)

lemma editDistance_eq_0: "editDistance a b = 0 \<longleftrightarrow> a = b"
  by (induction a b rule: editDistance.induct) (auto simp: min3_eq)

lemma within1_iff: "within1 a b \<longleftrightarrow> editDistance a b \<le> 1"
proof (induction a b rule: within1.induct)
  case (1 ys)
  show ?case by simp
next
  case (2 x xs)
  show ?case by auto
next
  case (3 x xs y ys)
  have a: "editDistance xs (y # ys) + 1 \<le> 1 \<longleftrightarrow> xs = y # ys"
    using editDistance_eq_0[of xs "y # ys"] by auto
  have b: "editDistance (x # xs) ys + 1 \<le> 1 \<longleftrightarrow> x # xs = ys"
    using editDistance_eq_0[of "x # xs" ys] by auto
  have m: "editDistance (x # xs) (y # ys) \<le> 1 \<longleftrightarrow>
      xs = y # ys \<or> x # xs = ys \<or> editDistance xs ys + (if x \<noteq> y then 1 else 0) \<le> 1"
    using a b by (simp add: min3_eq min_le_iff_disj del: One_nat_def) 
  show ?case
  proof (cases "x = y")
    case True
    have "xs = y # ys \<Longrightarrow> editDistance xs ys \<le> 1"
      using ed_drop_left[of y ys ys] by (simp add: editDistance_refl)
    moreover have "x # xs = ys \<Longrightarrow> editDistance xs ys \<le> 1"
      using ed_ins_head[of xs x xs] by (auto simp: editDistance_refl)
    ultimately show ?thesis using True 3 m by auto
  next
    case False
    then show ?thesis using m editDistance_eq_0[of xs ys] by auto
  qed
qed

lemma fuzzyCandidate_within1:
  "fuzzyCandidate cleaned key \<longleftrightarrow> length cleaned \<ge> 5 \<and> within1 cleaned key"
proof -
  have "absInt (int (length cleaned) - int (length key)) \<le> 1" if "editDistance cleaned key \<le> 1"
  proof -
    have "within1 a b \<Longrightarrow> absInt (int (length a) - int (length b)) \<le> 1" for a b :: string
      by (induction a b rule: within1.induct) (auto simp: absInt_def split: if_splits)
    with that show ?thesis by (simp add: within1_iff)
  qed
  then show ?thesis
    by (auto simp: fuzzyCandidate_def within1_iff levenshteinDistance_editDistance)
qed

lemma partialMatch_Cons:
  "partialMatch rs cleaned (key # ks) =
     (case rs key of
        None \<Rightarrow> partialMatch rs cleaned ks
      | Some grp \<Rightarrow> if tokenOccurs key cleaned then Some grp else partialMatch rs cleaned ks)"
  by (simp only: partialMatch.simps Contains_padded)

lemma partialMatch_Some:
  "partialMatch rs cleaned ks = Some grp \<Longrightarrow>
     \<exists>key\<in>set ks. rs key = Some grp \<and> tokenOccurs key cleaned"
  by (induction ks)
     (auto simp: partialMatch_Cons simp del: partialMatch.simps(2) split: option.splits if_splits)

lemma partialMatch_None:
  "partialMatch rs cleaned ks = None \<longleftrightarrow>
     (\<forall>key\<in>set ks. rs key \<noteq> None \<longrightarrow> \<not> tokenOccurs key cleaned)"
  by (induction ks)
     (auto simp: partialMatch_Cons simp del: partialMatch.simps(2) split: option.splits if_splits)

lemma fuzzyFold_inv:
  fixes rs cleaned
  defines "lev \<equiv> levenshteinDistance cleaned"
  shows
  "(foldl (fuzzyStep rs cleaned) ([], 999) ks = ([], 999)
      \<and> (\<forall>key\<in>set ks. rs key \<noteq> None \<longrightarrow> \<not> fuzzyCandidate cleaned key))
   \<or> (\<exists>key\<in>set ks. fuzzyCandidate cleaned key
         \<and> rs key = Some (fst (foldl (fuzzyStep rs cleaned) ([], 999) ks))
         \<and> lev key = snd (foldl (fuzzyStep rs cleaned) ([], 999) ks)
         \<and> (\<forall>k'\<in>set ks. rs k' \<noteq> None \<and> fuzzyCandidate cleaned k' \<longrightarrow> lev key \<le> lev k'))"
proof (induction ks rule: rev_induct)
  case Nil
  show ?case by simp
next
  case (snoc k ks)
  let ?b = "foldl (fuzzyStep rs cleaned) ([], 999) ks"
  have step: "foldl (fuzzyStep rs cleaned) ([], 999) (ks @ [k]) = fuzzyStep rs cleaned ?b k" by simp
  show ?case
  proof (cases "rs k \<noteq> None \<and> fuzzyCandidate cleaned k")
    case False
    then have same: "fuzzyStep rs cleaned ?b k = ?b"
      by (auto simp: fuzzyStep_def fuzzyCandidate_def Let_def split: option.splits)
    from snoc.IH show ?thesis unfolding step same using False by auto
  next
    case True
    then obtain grp where grp: "rs k = Some grp" by auto
    from True have cand: "fuzzyCandidate cleaned k" by simp
    then have len: "absInt (int (length cleaned) - int (length k)) \<le> 1 \<and> length cleaned \<ge> 5"
      and d1: "lev k \<le> 1" by (auto simp: fuzzyCandidate_def lev_def)
    show ?thesis
    proof (cases "lev k < snd ?b")
      case less: True
      then have new: "fuzzyStep rs cleaned ?b k = (grp, lev k)"
        using grp len d1 by (simp add: fuzzyStep_def Let_def lev_def)
      have "\<forall>k'\<in>set (ks @ [k]). rs k' \<noteq> None \<and> fuzzyCandidate cleaned k' \<longrightarrow> lev k \<le> lev k'"
        using snoc.IH less by auto
      then show ?thesis unfolding step new using grp cand by auto
    next
      case geq: False
      then have same: "fuzzyStep rs cleaned ?b k = ?b"
        using grp by (simp add: fuzzyStep_def Let_def lev_def)
      from snoc.IH geq d1 have "\<exists>key\<in>set ks. fuzzyCandidate cleaned key
         \<and> rs key = Some (fst ?b) \<and> lev key = snd ?b
         \<and> (\<forall>k'\<in>set ks. rs k' \<noteq> None \<and> fuzzyCandidate cleaned k' \<longrightarrow> lev key \<le> lev k')"
        by auto
      then show ?thesis unfolding step same using geq by auto
    qed
  qed
qed

lemma fuzzyTier_cases:
  "(fuzzyTier rs cleaned ks = [] \<and> (\<forall>key\<in>set ks. rs key \<noteq> None \<longrightarrow> \<not> fuzzyCandidate cleaned key))
   \<or> (\<exists>key\<in>set ks. fuzzyCandidate cleaned key \<and> rs key = Some (fuzzyTier rs cleaned ks)
         \<and> (\<forall>k'\<in>set ks. rs k' \<noteq> None \<and> fuzzyCandidate cleaned k' \<longrightarrow>
               levenshteinDistance cleaned key \<le> levenshteinDistance cleaned k'))"
  using fuzzyFold_inv[of rs cleaned ks] unfolding fuzzyTier_def by auto

lemma GetGroup_exact:
  assumes "rules g k = Some c" "ToLower (TrimSpace k) = k" "k \<noteq> []"
  shows "GetGroup g ks2 ks3 k = c"
  using assms by (simp add: GetGroup_def)

lemma allKeys_all:
  "(\<forall>k\<in>set allKeys. P k) \<longleftrightarrow> list_all (\<lambda>(c, kws). list_all P kws) categoryDefinitions"
  by (auto simp: allKeys_def list_all_iff)

lemma keywords_clean_scan:
  "list_all (\<lambda>(c, kws). list_all (\<lambda>k. ToLower k = k \<and> \<not> isSpace (hd k) \<and> \<not> isSpace (last k) \<and> k \<noteq> []) kws)
     categoryDefinitions"
  by (simp add: categoryDefinitions_def ToLower_def toLowerByte_Char isSpace_Char)

lemma keyword_clean:
  assumes "k \<in> set allKeys"
  shows "ToLower k = k" and "TrimSpace k = k" and "k \<noteq> []"
  using assms keywords_clean_scan[folded allKeys_all] by (auto simp: TrimSpace_fixed_iff)

lemma ToLower_allKeys: "ToLower ` set allKeys = set allKeys"
  using keyword_clean(1) by force

lemma owns_keyword_iff: "owns c k \<longleftrightarrow> (\<exists>kws. (c, kws) \<in> set categoryDefinitions \<and> k \<in> set kws)"
proof -
  have "ToLower ` set kws = set kws" if "(c, kws) \<in> set categoryDefinitions" for kws
  proof -
    have "set kws \<subseteq> set allKeys" using that by (auto simp: allKeys_def)
    then show ?thesis using keyword_clean(1) by force
  qed
  then show ?thesis by (auto simp: owns_iff)
qed

lemma doctor_scan:
  "list_all (\<lambda>(c, kws). list_all (\<lambda>k. (within1 ''docter'' k \<longrightarrow> k = ''doctor'' \<and> c = ''doctor'')
        \<and> k \<noteq> ''docter'' \<and> \<not> within1 ''xyzzyqwerty123'' k \<and> k \<noteq> ''xyzzyqwerty123'') kws)
     categoryDefinitions"
  by (simp add: categoryDefinitions_def)

lemma developer_scan:
  "list_all (\<lambda>(c, kws). list_all (\<lambda>k.
        k \<in> set [''front-end'', ''front-end developer'', ''developer''] \<longrightarrow>
          k = ''developer'' \<and> c = ''software engineer'') kws)
     categoryDefinitions"
  by (simp add: categoryDefinitions_def)

lemma rules_New_keyword:
  assumes cats: "set cats = fst ` set categoryDefinitions"
  shows "dom (rules (NewCategoryGrouper cats)) = set allKeys"
  using dom_rules_New[OF cats] by (simp add: ToLower_allKeys)

lemma rules_New_category:
  assumes cats: "set cats = fst ` set categoryDefinitions"
    and k: "k \<in> set allKeys"
    and only: "\<And>c' kws. (c', kws) \<in> set categoryDefinitions \<Longrightarrow> k \<in> set kws \<Longrightarrow> c' = c"
  shows "rules (NewCategoryGrouper cats) k = Some c"
proof -
  from k rules_New_keyword[OF cats] obtain c' where c': "rules (NewCategoryGrouper cats) k = Some c'"
    by blast
  from rules_New_Some[OF this] have "owns c' k" by simp
  with only have "c' = c" by (auto simp: owns_keyword_iff)
  with c' show ?thesis by simp
qed

lemma clean_literals:
  "ToLower (TrimSpace ''docter'') = ''docter''"
  "ToLower (TrimSpace ''xyzzyqwerty123'') = ''xyzzyqwerty123''"
  "ToLower (TrimSpace ''front-end developer'') = ''front-end developer''"
  by (simp_all add: TrimSpace_def ToLower_def toLowerByte_Char isSpace_Char)

text \<open>
  Claim C3.  Take the grouper that \<open>NewCategoryGrouper\<close> builds, in whatever order the loop over
  \<open>categoryDefinitions\<close> meets the categories.  Every rule of its map, a keyword \<open>k\<close> with
  its category \<open>c\<close>, is classified by the exact-match tier: lower-casing and trimming \<open>k\<close>
  gives \<open>k\<close> back, and \<open>GetGroup\<close> on \<open>k\<close> returns \<open>c\<close>, whatever the orders of the loops
  of the later tiers.  Every keyword of the table is a key of the map.
\<close>

theorem GetGroup_rule_keyword:
  assumes "set cats = fst ` set categoryDefinitions"
  shows "(\<forall>k c. rules (NewCategoryGrouper cats) k = Some c \<longrightarrow>
            ToLower (TrimSpace k) = k \<and> GetGroup (NewCategoryGrouper cats) ks2 ks3 k = c)
         \<and> (\<forall>(c, kws)\<in>set categoryDefinitions. \<forall>kw\<in>set kws.
               kw \<in> dom (rules (NewCategoryGrouper cats)))"
proof (intro conjI allI impI)
  fix k c assume r: "rules (NewCategoryGrouper cats) k = Some c"
  then have "k \<in> set allKeys" using rules_New_keyword[OF assms] by blast
  then have k: "ToLower (TrimSpace k) = k" "k \<noteq> []" by (simp_all add: keyword_clean)
  then show "ToLower (TrimSpace k) = k" by simp
  from r k show "GetGroup (NewCategoryGrouper cats) ks2 ks3 k = c" by (rule GetGroup_exact)
next
  show "\<forall>(c, kws)\<in>set categoryDefinitions. \<forall>kw\<in>set kws. kw \<in> dom (rules (NewCategoryGrouper cats))"
    unfolding rules_New_keyword[OF assms] by (force simp: allKeys_def)
qed

lemma cardiologist_scan:
  "list_all (\<lambda>(c, kws). ''cardiologist'' \<in> set kws \<longrightarrow> c = ''doctor'') categoryDefinitions"
  by (simp add: categoryDefinitions_def)

theorem GetGroup_rule_keyword_witness:
  "set (map fst categoryDefinitions) = fst ` set categoryDefinitions
   \<and> rules (NewCategoryGrouper (map fst categoryDefinitions)) ''cardiologist'' = Some ''doctor''
   \<and> GetGroup (NewCategoryGrouper (map fst categoryDefinitions)) [] [] ''cardiologist'' = ''doctor''"
proof -
  have cats: "set (map fst categoryDefinitions) = fst ` set categoryDefinitions" by simp
  have "''cardiologist'' \<in> set allKeys" by (simp add: allKeys_def categoryDefinitions_def)
  moreover have "c' = ''doctor''"
    if "(c', kws) \<in> set categoryDefinitions" "''cardiologist'' \<in> set kws" for c' kws
    using that cardiologist_scan by (auto simp: list_all_iff)
  ultimately have r: "rules (NewCategoryGrouper (map fst categoryDefinitions)) ''cardiologist'' = Some ''doctor''"
    by (rule rules_New_category[OF cats])
  with GetGroup_rule_keyword[OF cats, of "[]" "[]"] cats show ?thesis by blast
qed

lemma fuzzyTier_nonempty:
  assumes "fuzzyTier rs cleaned ks \<noteq> []"
  shows "length cleaned \<ge> 5 \<and>
     (\<exists>key\<in>set ks. rs key = Some (fuzzyTier rs cleaned ks)
        \<and> absInt (int (length cleaned) - int (length key)) \<le> 1
        \<and> levenshteinDistance cleaned key \<le> 1
        \<and> (\<forall>k'\<in>set ks. rs k' \<noteq> None \<and> absInt (int (length cleaned) - int (length k')) \<le> 1
               \<longrightarrow> levenshteinDistance cleaned key \<le> levenshteinDistance cleaned k'))"
proof -
  from assms fuzzyTier_cases[of rs cleaned ks]
  obtain key where key: "key \<in> set ks" "fuzzyCandidate cleaned key"
      "rs key = Some (fuzzyTier rs cleaned ks)"
      "\<forall>k'\<in>set ks. rs k' \<noteq> None \<and> fuzzyCandidate cleaned k' \<longrightarrow>
               levenshteinDistance cleaned key \<le> levenshteinDistance cleaned k'"
    by blast
  from key(2) have c: "length cleaned \<ge> 5" "absInt (int (length cleaned) - int (length key)) \<le> 1"
      "levenshteinDistance cleaned key \<le> 1"
    by (simp_all add: fuzzyCandidate_def)
  have "levenshteinDistance cleaned key \<le> levenshteinDistance cleaned k'"
    if "k' \<in> set ks" "rs k' \<noteq> None" "absInt (int (length cleaned) - int (length k')) \<le> 1" for k'
  proof (cases "levenshteinDistance cleaned k' \<le> 1")
    case True
    with that c(1) have "fuzzyCandidate cleaned k'" by (simp add: fuzzyCandidate_def)
    with key(4) that show ?thesis by blast
  next
    case False
    with c(3) show ?thesis by simp
  qed
  with key(1,3) c show ?thesis by blast
qed

lemma fuzzyTier_none:
  assumes "\<forall>key\<in>set ks. rs key \<noteq> None \<longrightarrow> \<not> fuzzyCandidate cleaned key"
  shows "fuzzyTier rs cleaned ks = []"
  using assms fuzzyTier_cases[of rs cleaned ks] by blast

lemma scan_elim:
  assumes "list_all (\<lambda>(c, kws). list_all (P c) kws) categoryDefinitions"
    and "(c, kws) \<in> set categoryDefinitions" and "k \<in> set kws"
  shows "P c k"
  using assms by (auto simp: list_all_iff)

lemma keyword_scan:
  assumes "k \<in> set allKeys"
  shows "within1 ''docter'' k \<longrightarrow> k = ''doctor''" and "k \<noteq> ''docter''"
    and "\<not> within1 ''xyzzyqwerty123'' k" and "k \<noteq> ''xyzzyqwerty123''"
proof -
  obtain c kws where ck: "(c, kws) \<in> set categoryDefinitions" "k \<in> set kws"
    using assms by (auto simp: allKeys_def)
  note f = scan_elim[OF doctor_scan ck]
  from f show "within1 ''docter'' k \<longrightarrow> k = ''doctor''" by (metis (no_types))
  from f show "k \<noteq> ''docter''" by (rule conjunct2[THEN conjunct1])
  from f show "\<not> within1 ''xyzzyqwerty123'' k" by (rule conjunct2[THEN conjunct2, THEN conjunct1])
  from f show "k \<noteq> ''xyzzyqwerty123''" by (rule conjunct2[THEN conjunct2, THEN conjunct2])
qed

lemma doctor_category:
  assumes "set cats = fst ` set categoryDefinitions"
  shows "rules (NewCategoryGrouper cats) ''doctor'' = Some ''doctor''"
proof (rule rules_New_category[OF assms])
  show "''doctor'' \<in> set allKeys" by (simp add: allKeys_def categoryDefinitions_def)
  show "c' = ''doctor''" if "(c', kws) \<in> set categoryDefinitions" "''doctor'' \<in> set kws" for c' kws
  proof -
    have w: "within1 ''docter'' ''doctor''" by simp
    from scan_elim[OF doctor_scan that] have "within1 ''docter'' ''doctor'' \<longrightarrow> ''doctor'' = ''doctor'' \<and> c' = ''doctor''"
      by (rule conjunct1)
    with w show ?thesis by (metis (no_types))
  qed
qed

text \<open>
  Claim C4.  When tier 3 returns a group, the cleaned input is at least 5 bytes long and the
  group is the one of a rule key whose length differs from the input's by at most 1, whose
  distance to the input is at most 1, and whose distance is the least among the keys of that
  length window.  On the grouper of the source, for every order of the loops, the input
  "docter" is classified as "doctor" by tier 3; every key is farther than 1 from
  "xyzzyqwerty123", tier 3 returns nothing for it and \<open>GetGroup\<close> returns the empty string.
\<close>

theorem GetGroup_fuzzy_tier:
  assumes "set cats = fst ` set categoryDefinitions"
    and "set ks2 = dom (rules (NewCategoryGrouper cats))"
    and "set ks3 = dom (rules (NewCategoryGrouper cats))"
  shows "(\<forall>rs cleaned ks. fuzzyTier rs cleaned ks \<noteq> [] \<longrightarrow>
            length cleaned \<ge> 5 \<and>
            (\<exists>key\<in>set ks. rs key = Some (fuzzyTier rs cleaned ks)
               \<and> absInt (int (length cleaned) - int (length key)) \<le> 1
               \<and> levenshteinDistance cleaned key \<le> 1
               \<and> (\<forall>k'\<in>set ks. rs k' \<noteq> None \<and> absInt (int (length cleaned) - int (length k')) \<le> 1
                      \<longrightarrow> levenshteinDistance cleaned key \<le> levenshteinDistance cleaned k')))
         \<and> fuzzyTier (rules (NewCategoryGrouper cats)) ''docter'' ks3 = ''doctor''
         \<and> GetGroup (NewCategoryGrouper cats) ks2 ks3 ''docter'' = ''doctor''
         \<and> (\<forall>key\<in>dom (rules (NewCategoryGrouper cats)). 1 < levenshteinDistance ''xyzzyqwerty123'' key)
         \<and> fuzzyTier (rules (NewCategoryGrouper cats)) ''xyzzyqwerty123'' ks3 = []
         \<and> GetGroup (NewCategoryGrouper cats) ks2 ks3 ''xyzzyqwerty123'' = []"
proof -
  let ?g = "NewCategoryGrouper cats"
  note dom = rules_New_keyword[OF assms(1)]
  have general: "\<forall>rs cleaned ks. fuzzyTier rs cleaned ks \<noteq> [] \<longrightarrow>
            length cleaned \<ge> 5 \<and>
            (\<exists>key\<in>set ks. rs key = Some (fuzzyTier rs cleaned ks)
               \<and> absInt (int (length cleaned) - int (length key)) \<le> 1
               \<and> levenshteinDistance cleaned key \<le> 1
               \<and> (\<forall>k'\<in>set ks. rs k' \<noteq> None \<and> absInt (int (length cleaned) - int (length k')) \<le> 1
                      \<longrightarrow> levenshteinDistance cleaned key \<le> levenshteinDistance cleaned k'))"
    using fuzzyTier_nonempty by blast
  have ks3: "set ks3 = set allKeys" and ks2: "set ks2 = set allKeys" using assms dom by simp_all
  \<comment> \<open>the input "docter"\<close>
  have d_cand: "fuzzyCandidate ''docter'' key \<Longrightarrow> key = ''doctor''" if "key \<in> set allKeys" for key
    using keyword_scan(1)[OF that] by (simp add: fuzzyCandidate_within1)
  have "fuzzyCandidate ''docter'' ''doctor''" by (simp add: fuzzyCandidate_within1)
  moreover have "''doctor'' \<in> set ks3" using doctor_category[OF assms(1)] assms(3)
    by (metis domI)
  moreover note doctor_category[OF assms(1)]
  ultimately have "\<not> (\<forall>key\<in>set ks3. rules ?g key \<noteq> None \<longrightarrow> \<not> fuzzyCandidate ''docter'' key)"
    by (metis option.distinct(1))
  with fuzzyTier_cases[of "rules ?g" "''docter''" ks3]
  obtain key where key: "key \<in> set ks3" "fuzzyCandidate ''docter'' key"
      "rules ?g key = Some (fuzzyTier (rules ?g) ''docter'' ks3)" by metis
  then have "key = ''doctor''" using d_cand[of key] ks3 by metis
  with key(3) doctor_category[OF assms(1)]
  have d3: "fuzzyTier (rules ?g) ''docter'' ks3 = ''doctor''" by (metis option.inject)
  have d1: "rules ?g ''docter'' = None" using keyword_scan(2) dom by (metis domIff)
  have "tokenOccurs key ''docter'' \<longleftrightarrow> key = ''docter''" for key
    by (simp add: tokenOccurs_spaceBounded)
  with d1 have "\<forall>key\<in>set ks2. rules ?g key \<noteq> None \<longrightarrow> \<not> tokenOccurs key ''docter''"
    by metis
  then have d2: "partialMatch (rules ?g) ''docter'' ks2 = None"
    by (simp only: partialMatch_None)
  have docter: "GetGroup ?g ks2 ks3 ''docter'' = ''doctor''"
    unfolding GetGroup_def clean_literals Let_def d1 d2 d3 by simp
  \<comment> \<open>the input "xyzzyqwerty123"\<close>
  have far: "1 < levenshteinDistance ''xyzzyqwerty123'' key" if "key \<in> dom (rules ?g)" for key
  proof -
    from that dom have "\<not> within1 ''xyzzyqwerty123'' key" by (intro keyword_scan(3)) simp
    then have "\<not> editDistance ''xyzzyqwerty123'' key \<le> 1" unfolding within1_iff .
    then show ?thesis unfolding levenshteinDistance_editDistance by linarith
  qed
  have "\<forall>key\<in>set ks3. rules ?g key \<noteq> None \<longrightarrow> \<not> fuzzyCandidate ''xyzzyqwerty123'' key"
  proof (intro ballI impI)
    fix key assume "key \<in> set ks3"
    with assms(3) far[of key] have "1 < levenshteinDistance ''xyzzyqwerty123'' key" by metis
    then show "\<not> fuzzyCandidate ''xyzzyqwerty123'' key" unfolding fuzzyCandidate_def by linarith
  qed
  then have x3: "fuzzyTier (rules ?g) ''xyzzyqwerty123'' ks3 = []" by (rule fuzzyTier_none)
  have x1: "rules ?g ''xyzzyqwerty123'' = None" using keyword_scan(4) dom by (metis domIff)
  have "tokenOccurs key ''xyzzyqwerty123'' \<longleftrightarrow> key = ''xyzzyqwerty123''" for key
    by (simp add: tokenOccurs_spaceBounded)
  with x1 have "\<forall>key\<in>set ks2. rules ?g key \<noteq> None \<longrightarrow> \<not> tokenOccurs key ''xyzzyqwerty123''"
    by metis
  then have x2: "partialMatch (rules ?g) ''xyzzyqwerty123'' ks2 = None"
    by (simp only: partialMatch_None)
  have xyzzy: "GetGroup ?g ks2 ks3 ''xyzzyqwerty123'' = []"
    unfolding GetGroup_def clean_literals Let_def x1 x2 x3 by simp
  from far have far': "\<forall>key\<in>dom (rules ?g). 1 < levenshteinDistance ''xyzzyqwerty123'' key" ..
  from general d3 docter far' x3 xyzzy show ?thesis by (intro conjI)
qed

theorem GetGroup_fuzzy_tier_witness:
  "set (map fst categoryDefinitions) = fst ` set categoryDefinitions
   \<and> set allKeys = dom (rules (NewCategoryGrouper (map fst categoryDefinitions)))
   \<and> fuzzyTier (rules (NewCategoryGrouper (map fst categoryDefinitions))) ''docter'' allKeys \<noteq> []
   \<and> 5 \<le> length ''docter''
   \<and> GetGroup (NewCategoryGrouper (map fst categoryDefinitions)) allKeys allKeys ''docter'' = ''doctor''"
proof -
  have cats: "set (map fst categoryDefinitions) = fst ` set categoryDefinitions" by simp
  have ks: "set allKeys = dom (rules (NewCategoryGrouper (map fst categoryDefinitions)))"
    by (rule rules_New_keyword[OF cats, symmetric])
  note th = GetGroup_fuzzy_tier[OF cats ks ks]
  from th have d: "fuzzyTier (rules (NewCategoryGrouper (map fst categoryDefinitions))) ''docter'' allKeys = ''doctor''"
    by (rule conjunct2[THEN conjunct1])
  then have ne: "fuzzyTier (rules (NewCategoryGrouper (map fst categoryDefinitions))) ''docter'' allKeys \<noteq> []"
    by simp
  from th have "\<forall>rs cleaned ks. fuzzyTier rs cleaned ks \<noteq> [] \<longrightarrow> length cleaned \<ge> 5 \<and>
            (\<exists>key\<in>set ks. rs key = Some (fuzzyTier rs cleaned ks)
               \<and> absInt (int (length cleaned) - int (length key)) \<le> 1
               \<and> levenshteinDistance cleaned key \<le> 1
               \<and> (\<forall>k'\<in>set ks. rs k' \<noteq> None \<and> absInt (int (length cleaned) - int (length k')) \<le> 1
                      \<longrightarrow> levenshteinDistance cleaned key \<le> levenshteinDistance cleaned k'))"
    by (rule conjunct1)
  with ne have len: "5 \<le> length ''docter''" by metis
  from th have "GetGroup (NewCategoryGrouper (map fst categoryDefinitions)) allKeys allKeys ''docter'' = ''doctor''"
    by (rule conjunct2[THEN conjunct2, THEN conjunct1])
  with cats ks ne len show ?thesis by (intro conjI)
qed

lemma developer_category:
  assumes "set cats = fst ` set categoryDefinitions"
  shows "rules (NewCategoryGrouper cats) ''developer'' = Some ''software engineer''"
proof (rule rules_New_category[OF assms])
  show "''developer'' \<in> set allKeys" by (simp add: allKeys_def categoryDefinitions_def)
  show "c' = ''software engineer''"
    if "(c', kws) \<in> set categoryDefinitions" "''developer'' \<in> set kws" for c' kws
  proof -
    have m: "''developer'' \<in> set [''front-end'', ''front-end developer'', ''developer'']" by simp
    from scan_elim[OF developer_scan that] m show ?thesis by (metis (no_types))
  qed
qed

lemma developer_only:
  assumes "k \<in> set allKeys" "tokenOccurs k ''front-end developer''"
  shows "k = ''developer''"
proof -
  obtain c kws where ck: "(c, kws) \<in> set categoryDefinitions" "k \<in> set kws"
    using assms(1) by (auto simp: allKeys_def)
  have "spaceBounded '' front-end developer '' = [''front-end'', ''front-end developer'', ''developer'']"
    by simp
  with assms(2) have "k \<in> set [''front-end'', ''front-end developer'', ''developer'']"
    unfolding tokenOccurs_spaceBounded by simp
  with scan_elim[OF developer_scan ck] show ?thesis by (metis (no_types))
qed

text \<open>
  Claim C5.  Tier 2 returns the group of a key only if the key occurs in the cleaned input
  with, on each side, the end of the input or a space (\<open>tokenOccurs\<close>), which is what the
  test on the two space-padded strings decides; if no key occurs so, tier 2 returns nothing.
  On the grouper of the source, for every order of the loops, "front-end developer" is not a
  key, "developer" is the only key that occurs in it as a token, and tier 2 and \<open>GetGroup\<close>
  return "software engineer".
\<close>

theorem GetGroup_substring_tier:
  assumes "set cats = fst ` set categoryDefinitions"
    and "set ks2 = dom (rules (NewCategoryGrouper cats))"
  shows "(\<forall>rs cleaned ks grp. partialMatch rs cleaned ks = Some grp \<longrightarrow>
            (\<exists>key\<in>set ks. rs key = Some grp \<and> tokenOccurs key cleaned))
         \<and> (\<forall>rs cleaned ks. (\<forall>key\<in>set ks. rs key \<noteq> None \<longrightarrow> \<not> tokenOccurs key cleaned) \<longrightarrow>
               partialMatch rs cleaned ks = None)
         \<and> (\<forall>cleaned key. Contains ('' '' @ cleaned @ '' '') ('' '' @ key @ '' '') \<longleftrightarrow> tokenOccurs key cleaned)
         \<and> rules (NewCategoryGrouper cats) ''front-end developer'' = None
         \<and> (\<forall>key\<in>dom (rules (NewCategoryGrouper cats)).
               tokenOccurs key ''front-end developer'' \<longrightarrow> key = ''developer'')
         \<and> partialMatch (rules (NewCategoryGrouper cats)) ''front-end developer'' ks2 = Some ''software engineer''
         \<and> GetGroup (NewCategoryGrouper cats) ks2 ks3 ''front-end developer'' = ''software engineer''"
proof -
  let ?g = "NewCategoryGrouper cats"
  note dom = rules_New_keyword[OF assms(1)]
  have g1: "\<forall>rs cleaned ks grp. partialMatch rs cleaned ks = Some grp \<longrightarrow>
            (\<exists>key\<in>set ks. rs key = Some grp \<and> tokenOccurs key cleaned)"
    using partialMatch_Some by blast
  have g2: "\<forall>rs cleaned ks. (\<forall>key\<in>set ks. rs key \<noteq> None \<longrightarrow> \<not> tokenOccurs key cleaned) \<longrightarrow>
               partialMatch rs cleaned ks = None"
    using partialMatch_None by blast
  have g3: "\<forall>cleaned key. Contains ('' '' @ cleaned @ '' '') ('' '' @ key @ '' '') \<longleftrightarrow> tokenOccurs key cleaned"
    using Contains_padded by blast
  have only: "\<forall>key\<in>dom (rules ?g). tokenOccurs key ''front-end developer'' \<longrightarrow> key = ''developer''"
    using developer_only dom by metis
  have "''front-end developer'' \<noteq> ''developer''" by simp
  moreover have "tokenOccurs ''front-end developer'' ''front-end developer''"
    unfolding tokenOccurs_spaceBounded by simp
  ultimately have f1: "rules ?g ''front-end developer'' = None"
    using only by (metis domIff)
  obtain grp where grp: "partialMatch (rules ?g) ''front-end developer'' ks2 = Some grp"
  proof (cases "partialMatch (rules ?g) ''front-end developer'' ks2")
    case None
    have "''developer'' \<in> set ks2" using developer_category[OF assms(1)] assms(2) by (metis domI)
    moreover have "tokenOccurs ''developer'' ''front-end developer''"
      unfolding tokenOccurs_spaceBounded by simp
    ultimately show ?thesis using None developer_category[OF assms(1)]
      unfolding partialMatch_None by (metis option.distinct(1))
  next
    case (Some a)
    then show ?thesis using that by metis
  qed
  from partialMatch_Some[OF grp] obtain key where key: "key \<in> set ks2" "rules ?g key = Some grp"
      "tokenOccurs key ''front-end developer''" by metis
  with only assms(2) have "key = ''developer''" by metis
  with key(2) developer_category[OF assms(1)] have "grp = ''software engineer''" by (metis option.inject)
  with grp have f2: "partialMatch (rules ?g) ''front-end developer'' ks2 = Some ''software engineer''"
    by (simp only:)
  have f3: "GetGroup ?g ks2 ks3 ''front-end developer'' = ''software engineer''"
    unfolding GetGroup_def clean_literals Let_def f1 f2 by simp
  from g1 g2 g3 f1 only f2 f3 show ?thesis by (intro conjI)
qed

theorem GetGroup_substring_tier_witness:
  "set (map fst categoryDefinitions) = fst ` set categoryDefinitions
   \<and> set allKeys = dom (rules (NewCategoryGrouper (map fst categoryDefinitions)))
   \<and> ''developer'' \<in> dom (rules (NewCategoryGrouper (map fst categoryDefinitions)))
   \<and> partialMatch (rules (NewCategoryGrouper (map fst categoryDefinitions))) ''front-end developer'' allKeys
        = Some ''software engineer''
   \<and> (\<exists>key\<in>set allKeys. rules (NewCategoryGrouper (map fst categoryDefinitions)) key = Some ''software engineer''
         \<and> tokenOccurs key ''front-end developer'')
   \<and> GetGroup (NewCategoryGrouper (map fst categoryDefinitions)) allKeys allKeys ''front-end developer''
        = ''software engineer''"
proof -
  let ?g = "NewCategoryGrouper (map fst categoryDefinitions)"
  have cats: "set (map fst categoryDefinitions) = fst ` set categoryDefinitions" by simp
  have ks: "set allKeys = dom (rules ?g)"
    by (rule rules_New_keyword[OF cats, symmetric])
  note th = GetGroup_substring_tier[OF cats ks, of allKeys]
  have dev: "''developer'' \<in> dom (rules ?g)" using developer_category[OF cats] by (metis domI)
  from th have pm: "partialMatch (rules ?g) ''front-end developer'' allKeys = Some ''software engineer''"
    by (rule conjunct2[THEN conjunct2, THEN conjunct2, THEN conjunct2, THEN conjunct2, THEN conjunct1])
  from th have "\<forall>rs cleaned ks grp. partialMatch rs cleaned ks = Some grp \<longrightarrow>
            (\<exists>key\<in>set ks. rs key = Some grp \<and> tokenOccurs key cleaned)"
    by (rule conjunct1)
  with pm have ex: "\<exists>key\<in>set allKeys. rules ?g key = Some ''software engineer''
         \<and> tokenOccurs key ''front-end developer''" by metis
  from th have gg: "GetGroup ?g allKeys allKeys ''front-end developer'' = ''software engineer''"
    by (rule conjunct2[THEN conjunct2, THEN conjunct2, THEN conjunct2, THEN conjunct2, THEN conjunct2])
  from cats ks dev pm ex gg show ?thesis by (intro conjI)
qed

section \<open>Properties of the normalizer and of the similarity score\<close>

lemmas norm_eval = NormalizeTerm_def Let_def NewTermNormalizer_def findLongestPrefixMatch_def
  newTrieNode_def registerCanonicalTerm_def insertIntoTrie_def runes_def
  TrimSpace_def ToLower_def toLowerByte_Char isSpace_Char isSimilarByPrefix_def longestCommonPrefix_def
  getFrequency_def

lemma stateT1_eval:
  "canonicalTerms stateT1 = [''it dev'' \<mapsto> ''it dev'']"
  "fuzzyMatchCache stateT1 = Map.empty"
  "findLongestPrefixMatch stateT1 ''it devs'' = ''it dev''"
  by (simp_all add: stateT1_def norm_eval findBestFuzzyMatch_def)

lemma clean_it_devs: "ToLower (TrimSpace ''it devs'') = ''it devs''"
  by (simp add: TrimSpace_def ToLower_def toLowerByte_Char isSpace_Char)


lemma similar_it_devs: "isSimilarByPrefix ''it devs'' ''it dev''"
  by (simp add: isSimilarByPrefix_def longestCommonPrefix_def Let_def)

lemma stateT2_eq:
  "stateT2 = insertIntoTrie
     (stateT1\<lparr>fuzzyMatchCache := (fuzzyMatchCache stateT1)(''it devs'' \<mapsto> ''it dev''),
              canonicalTerms := (canonicalTerms stateT1)(''it devs'' \<mapsto> ''it dev'')\<rparr>)
     ''it devs'' ''it dev''"
  unfolding stateT2_def NormalizeTerm_def clean_it_devs Let_def
  by (simp add: stateT1_eval similar_it_devs)

lemma stateT2_eval:
  "canonicalTerms stateT2 = [''it dev'' \<mapsto> ''it dev'', ''it devs'' \<mapsto> ''it dev'']"
  "fuzzyMatchCache stateT2 = [''it devs'' \<mapsto> ''it dev'']"
  "getFrequency stateT2 ''it dev'' = 1"
  "getFrequency stateT2 ''it devs'' = 1"
     apply (simp_all add: stateT2_eq stateT1_eval insertIntoTrie_def)
   apply (simp_all add: stateT1_def norm_eval findBestFuzzyMatch_def)
  done


text \<open>
  Claim C2, at a state the code reaches.  After "it dev" and "it devs" have been normalized,
  the map has the two keys "it dev" and "it devs", and "it devs" is an alias of "it dev", not a
  canonical term.  \<open>GetCanonicalTerms\<close> lists both keys, in either order of the loop: the loop
  runs over every key of the map and does not test \<open>key == canonical\<close> as the loop of
  \<open>findBestFuzzyMatch\<close> does.
\<close>

theorem GetCanonicalTerms_lists_alias:
  "dom (canonicalTerms stateT2) = {''it dev'', ''it devs''}
   \<and> canonicalTerms stateT2 ''it devs'' = Some ''it dev''
   \<and> GetCanonicalTerms stateT2 [''it dev'', ''it devs''] = [''it dev'', ''it devs'']
   \<and> GetCanonicalTerms stateT2 [''it devs'', ''it dev''] = [''it devs'', ''it dev'']"
  by (simp add: stateT2_eval GetCanonicalTerms_def Let_def insert_commute)

text \<open>
  Claim C10, at an input of \<open>AddRule\<close>.  \<open>AddRule\<close> lower-cases the term and does not trim
  it: after \<open>AddRule(" Nurse", "nurse")\<close> the rule map has the key \<open>" nurse"\<close>, which starts
  with a space.  \<open>GetGroup\<close> trims its input before the lookup, so no input is ever looked up
  under this key.
\<close>

theorem AddRule_key_not_trimmed:
  "rules (AddRule g '' Nurse'' ''nurse'') '' nurse'' = Some ''nurse''
   \<and> TrimSpace '' nurse'' \<noteq> '' nurse''
   \<and> (\<forall>category. ToLower (TrimSpace category) \<noteq> '' nurse'')"
proof (intro conjI allI)
  show "rules (AddRule g '' Nurse'' ''nurse'') '' nurse'' = Some ''nurse''"
    by (simp add: AddRule_def ToLower_def toLowerByte_Char)
  show "TrimSpace '' nurse'' \<noteq> '' nurse''"
    by (simp add: TrimSpace_fixed_iff isSpace_Char)
  show "ToLower (TrimSpace category) \<noteq> '' nurse''" for category
  proof
    assume a: "ToLower (TrimSpace category) = '' nurse''"
    have "cleanKey (ToLower (TrimSpace category))" by (rule cleanKey_clean)
    then have "TrimSpace '' nurse'' = '' nurse''" unfolding a cleanKey_def by (rule conjunct2)
    then show False by (simp add: TrimSpace_fixed_iff isSpace_Char)
  qed
qed

lemma Fields_it_it: "Fields ''it it'' = [''it'', ''it'']" "Fields ''it'' = [''it'']"
  by (simp_all add: Fields_def isSpace_Char)

lemma dp_it_it:
  "longestCommonSubsequence ''it it'' ''it'' = 2"
  "levenshteinDistance ''it it'' ''it'' = 3"
  "longestCommonPrefix ''it it'' ''it'' = ''it''"
  by code_simp+

text \<open>
  Claim C7, at the pair "it it" and "it".  The two token sets are equal, so the overlap the
  specification words is 1 and its score is 11/25.  The source counts the tokens of the second
  string that occur among those of the first and divides by the larger number of tokens, the
  repeated token counted twice: its overlap is 1/2 and its score 17/50.
\<close>

theorem calculateTokenOverlap_counts_repeats:
  "calculateTokenOverlap (Fields ''it it'') (Fields ''it'') = 1 / 2
   \<and> specTokenOverlap ''it it'' ''it'' = 1
   \<and> calculateSimilarity ''it it'' ''it'' = 17 / 50
   \<and> specSimilarity ''it it'' ''it'' = 11 / 25"
proof (intro conjI)
  show o: "calculateTokenOverlap (Fields ''it it'') (Fields ''it'') = 1 / 2"
    by (simp add: Fields_it_it calculateTokenOverlap_def maxTwo_def)
  show so: "specTokenOverlap ''it it'' ''it'' = 1"
    by (simp add: Fields_it_it specTokenOverlap_def)
  show "calculateSimilarity ''it it'' ''it'' = 17 / 50"
    unfolding calculateSimilarity_def Let_def o dp_it_it
    by (simp add: absTwo_def maxTwo_def)
  show "specSimilarity ''it it'' ''it'' = 11 / 25"
    unfolding specSimilarity_def Let_def so
    by (simp add: min3_def)
qed

lemma decodeBytes_ascii: "\<forall>b\<in>set bs. b < 128 \<Longrightarrow> decodeBytes bs = bs"
  by (induction bs) simp_all

lemma runes_ascii:
  assumes "\<forall>c\<in>set s. (of_char c :: nat) < 128"
  shows "runes s = map of_char s"
  unfolding runes_def using assms by (intro decodeBytes_ascii) simp

lemma editDistance_map_inj:
  assumes "inj f"
  shows "editDistance (map f a) (map f b) = editDistance a b"
  by (induction a b rule: editDistance.induct) (simp_all add: inj_eq[OF assms])

text \<open>
  Claim C9 as stated fails: the code point U+00E9 is the two bytes C3 A9 in UTF-8, and the
  source's distance between it and "e" is 2 (a substitution and a deletion of bytes), while
  the distance between the two sequences of code points is 1.
\<close>

theorem levenshteinDistance_splits_code_point_counterexample:
  "levenshteinDistance [CHR 0xC3, CHR 0xA9] ''e'' \<noteq> tableDistance (runes [CHR 0xC3, CHR 0xA9]) (runes ''e'')"
proof -
  have "levenshteinDistance [CHR 0xC3, CHR 0xA9] ''e'' = 2" by code_simp
  moreover have "tableDistance (runes [CHR 0xC3, CHR 0xA9]) (runes ''e'') = 1" by code_simp
  ultimately show ?thesis by simp
qed

text \<open>
  Claim C9, amended.  The primitive works on bytes, the unit of Go's string indexing: its
  result is the edit distance between the two sequences of byte values.  When every byte of
  both strings is below 128, so that each code point is one byte, it is the distance between
  the two sequences of code points.
\<close>

theorem levenshteinDistance_on_bytes:
  "levenshteinDistance a b = editDistance (map of_char a :: nat list) (map of_char b)
   \<and> ((\<forall>c\<in>set a \<union> set b. (of_char c :: nat) < 128) \<longrightarrow>
        levenshteinDistance a b = tableDistance (runes a) (runes b))"
proof (intro conjI impI)
  show bytes: "levenshteinDistance a b = editDistance (map of_char a :: nat list) (map of_char b)"
    by (simp add: levenshteinDistance_editDistance editDistance_map_inj[OF inj_of_char])
  assume "\<forall>c\<in>set a \<union> set b. (of_char c :: nat) < 128"
  then have "runes a = map of_char a" "runes b = map of_char b"
    by (simp_all add: runes_ascii)
  then show "levenshteinDistance a b = tableDistance (runes a) (runes b)"
    by (simp add: bytes tableDistance_editDistance)
qed

theorem levenshteinDistance_on_bytes_witness:
  "list_all (\<lambda>c. (of_char c :: nat) < 128) (''kitten'' @ ''sitting'')
   \<and> levenshteinDistance ''kitten'' ''sitting'' = tableDistance (runes ''kitten'') (runes ''sitting'')"
proof -
  have l: "list_all (\<lambda>c. (of_char c :: nat) < 128) (''kitten'' @ ''sitting'')" by simp
  then have h: "\<forall>c\<in>set ''kitten'' \<union> set ''sitting''. (of_char c :: nat) < 128"
    by (simp only: list_all_iff set_append)
  from levenshteinDistance_on_bytes[of "''kitten''" "''sitting''"]
  have "(\<forall>c\<in>set ''kitten'' \<union> set ''sitting''. (of_char c :: nat) < 128) \<longrightarrow>
        levenshteinDistance ''kitten'' ''sitting'' = tableDistance (runes ''kitten'') (runes ''sitting'')"
    by (rule conjunct2)
  from this h have e: "levenshteinDistance ''kitten'' ''sitting'' = tableDistance (runes ''kitten'') (runes ''sitting'')"
    by (rule mp)
  from l e show ?thesis by (rule conjI)
qed


































































end
